theory Spec2Isabelle
  imports Main "HOL-Library.AList" "HOL-Library.Char_ord" "HOL-Library.List_Lexorder"
    "HOL-Library.Multiset"
begin

section \<open>The qemu.conf override DSL of lxd/instance/drivers\<close>

text \<open>
  Two versions of the override engine are in the sources: the refactored one
  (\<^verbatim>\<open>src/unnamed/part_000\<close>, functions \<^verbatim>\<open>extractRawConfigKeys\<close>, \<^verbatim>\<open>updateEntries\<close>,
  \<^verbatim>\<open>appendEntries\<close>, \<^verbatim>\<open>updateSections\<close>, \<^verbatim>\<open>appendSections\<close>, \<^verbatim>\<open>qemuRawCfgOverride\<close>) and the
  monolithic one (\<^verbatim>\<open>driver_qemu_config_override.go\<close>). Both are embedded below; where
  the two files use the same name, the definition of the second carries the suffix
  \<open>_drv\<close>.
\<close>

subsection \<open>Data model\<close>

text \<open>
  Modelled from the spec: the declarations of \<^verbatim>\<open>cfgEntry\<close> and \<^verbatim>\<open>cfgSection\<close> are not in
  the sources. An entry is a (key, value) pair of strings; a section has a name, a comment
  and an ordered sequence of entries. These are exactly the fields the code reads
  (\<^verbatim>\<open>entry.key\<close>, \<^verbatim>\<open>entry.value\<close>, \<^verbatim>\<open>section.name\<close>, \<^verbatim>\<open>section.comment\<close>, \<^verbatim>\<open>section.entries\<close>).
  The field \<^verbatim>\<open>value\<close> is called \<open>val\<close> here, since \<open>value\<close> is a keyword of Isabelle.
\<close>

record cfgEntry =
  key :: string
  val :: string

record cfgSection =
  name :: string
  comment :: string
  entries :: "cfgEntry list"

text \<open>\<^verbatim>\<open>type rawConfigKey struct { sectionName string; index uint; entryKey string }\<close>\<close>

record rawConfigKey =
  sectionName :: string
  index :: nat
  entryKey :: string

text \<open>
  \<^verbatim>\<open>type configMap map[rawConfigKey]string\<close>. A Go map is kept as an association list with
  distinct keys: lookup is \<^const>\<open>map_of\<close>, assignment \<^const>\<open>AList.update\<close>, \<^verbatim>\<open>delete\<close> is
  \<^const>\<open>AList.delete\<close>. The order of the list has no meaning: the order in which a
  \<^verbatim>\<open>range\<close> statement visits the keys is given by the runtime below.
\<close>

type_synonym configMap = "(rawConfigKey \<times> string) list"

datatype panic = Panic string

subsection \<open>What the Go runtime decides\<close>

text \<open>
  The iteration order of \<^verbatim>\<open>range\<close> over a map is not specified by Go, and \<^verbatim>\<open>sort.Slice\<close> is
  library code. Both are parameters of the model. Every execution of a \<^verbatim>\<open>range\<close> statement
  over a map of raw keys has its own site, so that each may visit the keys in an arbitrary
  order of its own: the one inside the loop over the original sections (once for the
  section at each position), the one of \<^verbatim>\<open>sortedConfigKeys\<close> called for the new sections,
  and the one over the map of new sections.
\<close>

datatype rangeSite = InSection nat | NewSectionKeys | NewSections

record goRuntime =
  rangeOrder :: "rangeSite \<Rightarrow> rawConfigKey list \<Rightarrow> rawConfigKey list"
  sortSlice :: "(rawConfigKey \<Rightarrow> rawConfigKey \<Rightarrow> bool) \<Rightarrow> rawConfigKey list \<Rightarrow> rawConfigKey list"

text \<open>
  Go's \<^verbatim>\<open>insertionSortLessFunc\<close>: for each position in turn, the element there is swapped
  with its left neighbour as long as \<^verbatim>\<open>less\<close> says it is smaller. \<^verbatim>\<open>sort.Slice\<close> is this
  algorithm on every slice of at most 6 elements in all Go releases (of at most 12 since
  Go 1.19).
\<close>

function insertLeft :: "('a \<Rightarrow> 'a \<Rightarrow> bool) \<Rightarrow> 'a \<Rightarrow> 'a list \<Rightarrow> 'a list" where
  "insertLeft lt x ys =
     (if ys \<noteq> [] \<and> lt x (last ys) then insertLeft lt x (butlast ys) @ [last ys]
      else ys @ [x])"
  by pat_completeness auto
termination
  by (relation "measure (\<lambda>(lt, x, ys). length ys)") auto

declare insertLeft.simps [simp del]

definition insertionSort :: "('a \<Rightarrow> 'a \<Rightarrow> bool) \<Rightarrow> 'a list \<Rightarrow> 'a list" where
  "insertionSort lt xs = foldl (\<lambda>done x. insertLeft lt x done) [] xs"

text \<open>
  A runtime is admissible when every \<^verbatim>\<open>range\<close> visits each key once and \<^verbatim>\<open>sort.Slice\<close>
  permutes its slice (it only swaps elements): it is \<open>permuting\<close>. It is valid when, in
  addition, \<^verbatim>\<open>sort.Slice\<close> is the insertion sort on short slices. Nothing more is assumed
  of \<^verbatim>\<open>sort.Slice\<close>: the comparators of this code are not strict weak orders, so its
  contract promises no order.
\<close>

definition permuting :: "goRuntime \<Rightarrow> bool" where
  "permuting rt \<longleftrightarrow>
     (\<forall>site ks. mset (rangeOrder rt site ks) = mset ks) \<and>
     (\<forall>lt ks. mset (sortSlice rt lt ks) = mset ks)"

definition valid_runtime :: "goRuntime \<Rightarrow> bool" where
  "valid_runtime rt \<longleftrightarrow>
     permuting rt \<and> (\<forall>lt ks. length ks \<le> 6 \<longrightarrow> sortSlice rt lt ks = insertionSort lt ks)"

subsection \<open>The key parser\<close>

text \<open>
  \<^verbatim>\<open>^raw\.qemu\.config\.([^.\[]+)(?:\[(\d+)\])?(?:\.(.+))?$\<close> matched by
  \<^verbatim>\<open>FindStringSubmatch\<close>. The section group cannot end before the first \<^verbatim>\<open>.\<close> or \<^verbatim>\<open>[\<close>
  (what follows it must be \<^verbatim>\<open>[\<close>, \<^verbatim>\<open>.\<close> or the end), so it is the longest run without these
  two characters; likewise the digits run up to the \<^verbatim>\<open>]\<close>. The entry group is the whole
  rest after the dot, not empty, and without a newline (which \<^verbatim>\<open>.\<close> does not match).
  The result holds the three groups, an unmatched group being the empty string, as in Go;
  \<open>None\<close> is the empty slice of a failed match.
\<close>

fun stripPrefix :: "string \<Rightarrow> string \<Rightarrow> string option" where
  "stripPrefix [] s = Some s"
| "stripPrefix (p # ps) [] = None"
| "stripPrefix (p # ps) (c # cs) = (if p = c then stripPrefix ps cs else None)"

definition isDigit :: "char \<Rightarrow> bool" where
  "isDigit c \<longleftrightarrow> CHR ''0'' \<le> c \<and> c \<le> CHR ''9''"

definition sectionChar :: "char \<Rightarrow> bool" where
  "sectionChar c \<longleftrightarrow> c \<noteq> CHR ''.'' \<and> c \<noteq> CHR ''[''"

definition matchEntry :: "string \<Rightarrow> string option" where
  "matchEntry rest =
     (case rest of
        [] \<Rightarrow> Some []
      | c # e \<Rightarrow> if c = CHR ''.'' \<and> e \<noteq> [] \<and> CHR 0x0A \<notin> set e then Some e else None)"

definition rawConfigPattern :: "string \<Rightarrow> (string \<times> string \<times> string) option" where
  "rawConfigPattern rawKey =
     (case stripPrefix ''raw.qemu.config.'' rawKey of
        None \<Rightarrow> None
      | Some rest \<Rightarrow>
          let sec = takeWhile sectionChar rest; r1 = dropWhile sectionChar rest in
          if sec = [] then None
          else (case r1 of
                  [] \<Rightarrow> Some (sec, [], [])
                | c # r2 \<Rightarrow>
                    if c = CHR ''['' then
                      let ds = takeWhile isDigit r2; r3 = dropWhile isDigit r2 in
                      if ds = [] then None
                      else (case r3 of
                              [] \<Rightarrow> None
                            | d # r4 \<Rightarrow>
                                if d = CHR '']'' then
                                  (case matchEntry r4 of
                                     None \<Rightarrow> None
                                   | Some e \<Rightarrow> Some (sec, ds, e))
                                else None)
                    else (case matchEntry r1 of
                            None \<Rightarrow> None
                          | Some e \<Rightarrow> Some (sec, [], e))))"

text \<open>
  \<^verbatim>\<open>strconv.Atoi\<close> on a string of decimal digits (the only strings the pattern hands to it):
  the value, or an error when it does not fit a 64-bit \<^verbatim>\<open>int\<close>.
\<close>

datatype numError = ErrSyntax | ErrRange

definition Atoi :: "string \<Rightarrow> numError + int" where
  "Atoi s =
     (if s = [] \<or> \<not> list_all isDigit s then Inl ErrSyntax
      else let n = foldl (\<lambda>a c. 10 * a + (of_char c - 48)) (0::int) s in
        if n > 9223372036854775807 then Inl ErrRange else Inr n)"

subsection \<open>The override index\<close>

text \<open>
  \<^verbatim>\<open>extractRawConfigKeys\<close>. The dictionary \<^verbatim>\<open>expandedConfig\<close> is given as the list of its
  key/value pairs in the order in which the \<^verbatim>\<open>range\<close> statement enumerates them.
\<close>

fun extractRawConfigKeys_loop :: "(string \<times> string) list \<Rightarrow> configMap \<Rightarrow> panic + configMap" where
  "extractRawConfigKeys_loop [] rv = Inr rv"
| "extractRawConfigKeys_loop ((rawKey, v) # rest) rv =
     (case rawConfigPattern rawKey of
        None \<Rightarrow> extractRawConfigKeys_loop rest rv
      | Some (m1, m2, m3) \<Rightarrow>
          if m2 \<noteq> [] then
            (case Atoi m2 of
               Inl err \<Rightarrow> Inl (Panic ''failed to parse index'')
             | Inr i \<Rightarrow>
                 if i < 0 then Inl (Panic ''failed to parse index'')
                 else extractRawConfigKeys_loop rest
                        (AList.update \<lparr>sectionName = m1, index = nat i, entryKey = m3\<rparr> v rv))
          else extractRawConfigKeys_loop rest
                 (AList.update \<lparr>sectionName = m1, index = 0, entryKey = m3\<rparr> v rv))"

definition extractRawConfigKeys :: "(string \<times> string) list \<Rightarrow> panic + configMap" where
  "extractRawConfigKeys expandedConfig = extractRawConfigKeys_loop expandedConfig []"

subsection \<open>Sorting the keys\<close>

definition lessConfigKey :: "rawConfigKey \<Rightarrow> rawConfigKey \<Rightarrow> bool" where
  "lessConfigKey a b \<longleftrightarrow>
     sectionName a < sectionName b \<or> index a < index b \<or> entryKey a < entryKey b"

definition sortedConfigKeys :: "goRuntime \<Rightarrow> rangeSite \<Rightarrow> configMap \<Rightarrow> rawConfigKey list" where
  "sortedConfigKeys rt site cfgMap =
     sortSlice rt lessConfigKey (rangeOrder rt site (map fst cfgMap))"

subsection \<open>The section merger\<close>

text \<open>\<^verbatim>\<open>cfgMap[k]\<close> read without the \<^verbatim>\<open>ok\<close> flag: the zero value for a missing key.\<close>

definition mapValue :: "configMap \<Rightarrow> rawConfigKey \<Rightarrow> string" where
  "mapValue cfgMap k = (case map_of cfgMap k of None \<Rightarrow> [] | Some v \<Rightarrow> v)"

fun updateEntries_loop ::
  "cfgEntry list \<Rightarrow> rawConfigKey \<Rightarrow> cfgEntry list \<Rightarrow> configMap \<Rightarrow> cfgEntry list \<times> configMap" where
  "updateEntries_loop [] sk rv cfgMap = (rv, cfgMap)"
| "updateEntries_loop (entry # rest) sk rv cfgMap =
     (let newEntry = \<lparr>key = key entry, val = val entry\<rparr>;
          ek = \<lparr>sectionName = sectionName sk, index = index sk, entryKey = key entry\<rparr>
      in case map_of cfgMap ek of
           Some v \<Rightarrow> updateEntries_loop rest sk (rv @ [newEntry\<lparr>val := v\<rparr>]) (AList.delete ek cfgMap)
         | None \<Rightarrow> updateEntries_loop rest sk (rv @ [newEntry]) cfgMap)"

definition updateEntries :: "cfgEntry list \<Rightarrow> rawConfigKey \<Rightarrow> configMap \<Rightarrow> cfgEntry list \<times> configMap" where
  "updateEntries es sk cfgMap = updateEntries_loop es sk [] cfgMap"

fun appendEntries_loop ::
  "rawConfigKey list \<Rightarrow> rawConfigKey \<Rightarrow> cfgEntry list \<Rightarrow> configMap \<Rightarrow> cfgEntry list \<times> configMap" where
  "appendEntries_loop [] sk es cfgMap = (es, cfgMap)"
| "appendEntries_loop (rawKey # rest) sk es cfgMap =
     (if sectionName rawKey \<noteq> sectionName sk \<or> index rawKey \<noteq> index sk
      then appendEntries_loop rest sk es cfgMap
      else appendEntries_loop rest sk
             (es @ [\<lparr>key = entryKey rawKey, val = mapValue cfgMap rawKey\<rparr>])
             (AList.delete rawKey cfgMap))"

definition appendEntries ::
  "goRuntime \<Rightarrow> rangeSite \<Rightarrow> cfgEntry list \<Rightarrow> rawConfigKey \<Rightarrow> configMap \<Rightarrow> cfgEntry list \<times> configMap" where
  "appendEntries rt site es sk cfgMap =
     appendEntries_loop (sortedConfigKeys rt site cfgMap) sk es cfgMap"

text \<open>
  The loop of \<^verbatim>\<open>updateSections\<close>. \<open>pos\<close> is the position of the section in the original
  list (it only names the site of the \<^verbatim>\<open>range\<close> this round executes); \<^verbatim>\<open>sectionCounts\<close> is
  a map that is never enumerated, so it is a function. Its \<^verbatim>\<open>uint\<close> counters cannot wrap:
  they are bounded by the length of the list.
\<close>

fun updateSections_loop ::
  "goRuntime \<Rightarrow> nat \<Rightarrow> cfgSection list \<Rightarrow> (string \<rightharpoonup> nat) \<Rightarrow> cfgSection list \<Rightarrow> configMap
     \<Rightarrow> cfgSection list \<times> configMap" where
  "updateSections_loop rt pos [] sectionCounts newCfg cfgMap = (newCfg, cfgMap)"
| "updateSections_loop rt pos (section # rest) sectionCounts newCfg cfgMap =
     (let sectionCounts' =
            (case sectionCounts (name section) of
               Some cnt \<Rightarrow> sectionCounts(name section \<mapsto> cnt + 1)
             | None \<Rightarrow> sectionCounts(name section \<mapsto> 1));
          idx = the (sectionCounts' (name section)) - 1;
          sk = \<lparr>sectionName = name section, index = idx, entryKey = []\<rparr>
      in if map_of cfgMap sk = Some []
         then updateSections_loop rt (pos + 1) rest sectionCounts' newCfg (AList.delete sk cfgMap)
         else
           let (es1, cfgMap1) = updateEntries (entries section) sk cfgMap;
               (es2, cfgMap2) = appendEntries rt (InSection pos) es1 sk cfgMap1;
               newSection = \<lparr>name = name section, comment = comment section, entries = es2\<rparr>
           in updateSections_loop rt (pos + 1) rest sectionCounts' (newCfg @ [newSection]) cfgMap2)"

definition updateSections :: "goRuntime \<Rightarrow> cfgSection list \<Rightarrow> configMap \<Rightarrow> cfgSection list \<times> configMap" where
  "updateSections rt cfg cfgMap = updateSections_loop rt 0 cfg Map.empty [] cfgMap"

subsection \<open>The section appender\<close>

definition lessSection :: "rawConfigKey \<Rightarrow> rawConfigKey \<Rightarrow> bool" where
  "lessSection a b \<longleftrightarrow> sectionName a < sectionName b \<or> index a < index b"

fun appendSections_collect ::
  "rawConfigKey list \<Rightarrow> configMap \<Rightarrow> (rawConfigKey \<times> cfgSection) list \<Rightarrow> (rawConfigKey \<times> cfgSection) list" where
  "appendSections_collect [] cfgMap tmp = tmp"
| "appendSections_collect (k # rest) cfgMap tmp =
     (if entryKey k = [] then appendSections_collect rest cfgMap tmp
      else
        let sectionKey = \<lparr>sectionName = sectionName k, index = index k, entryKey = []\<rparr>;
            section = (case map_of tmp sectionKey of
                         Some s \<Rightarrow> s
                       | None \<Rightarrow> \<lparr>name = sectionName k, comment = [], entries = []\<rparr>);
            section' = section\<lparr>entries := entries section @ [\<lparr>key = entryKey k, val = mapValue cfgMap k\<rparr>]\<rparr>
        in appendSections_collect rest cfgMap (AList.update sectionKey section' tmp))"

text \<open>\<^verbatim>\<open>tmp[rawSection]\<close>: the zero section for a missing key (there is none: the keys come from \<open>tmp\<close>).\<close>

definition sectionValue :: "(rawConfigKey \<times> cfgSection) list \<Rightarrow> rawConfigKey \<Rightarrow> cfgSection" where
  "sectionValue tmp k =
     (case map_of tmp k of None \<Rightarrow> \<lparr>name = [], comment = [], entries = []\<rparr> | Some s \<Rightarrow> s)"

definition appendSections :: "goRuntime \<Rightarrow> cfgSection list \<Rightarrow> configMap \<Rightarrow> cfgSection list" where
  "appendSections rt newCfg cfgMap =
     (let sortedKeys = sortedConfigKeys rt NewSectionKeys cfgMap;
          tmp = appendSections_collect sortedKeys cfgMap [];
          rawSections = sortSlice rt lessSection (rangeOrder rt NewSections (map fst tmp))
      in newCfg @ map (sectionValue tmp) rawSections)"

subsection \<open>The orchestrator\<close>

definition qemuRawCfgOverride ::
  "goRuntime \<Rightarrow> cfgSection list \<Rightarrow> (string \<times> string) list \<Rightarrow> panic + cfgSection list" where
  "qemuRawCfgOverride rt cfg expandedConfig =
     (case extractRawConfigKeys expandedConfig of
        Inl p \<Rightarrow> Inl p
      | Inr cfgMap \<Rightarrow>
          if length cfgMap = 0 then Inr cfg
          else
            let (newCfg, cfgMap') = updateSections rt cfg cfgMap
            in Inr (appendSections rt newCfg cfgMap'))"

subsection \<open>The monolithic version: \<^verbatim>\<open>driver_qemu_config_override.go\<close>\<close>

text \<open>
  Its pattern \<^verbatim>\<open>^raw\.qemu\.config\.([^.\[]+)(?:\[(\d)\])?(?:\.(.+))?$\<close> has a single digit
  between the brackets.
\<close>

definition rawConfigPattern_drv :: "string \<Rightarrow> (string \<times> string \<times> string) option" where
  "rawConfigPattern_drv rawKey =
     (case stripPrefix ''raw.qemu.config.'' rawKey of
        None \<Rightarrow> None
      | Some rest \<Rightarrow>
          let sec = takeWhile sectionChar rest; r1 = dropWhile sectionChar rest in
          if sec = [] then None
          else (case r1 of
                  [] \<Rightarrow> Some (sec, [], [])
                | c # r2 \<Rightarrow>
                    if c = CHR ''['' then
                      (case r2 of
                         d # b # r4 \<Rightarrow>
                           if isDigit d \<and> b = CHR '']'' then
                             (case matchEntry r4 of
                                None \<Rightarrow> None
                              | Some e \<Rightarrow> Some (sec, [d], e))
                           else None
                       | _ \<Rightarrow> None)
                    else (case matchEntry r1 of
                            None \<Rightarrow> None
                          | Some e \<Rightarrow> Some (sec, [], e))))"

definition lessConfigKey_drv :: "rawConfigKey \<Rightarrow> rawConfigKey \<Rightarrow> bool" where
  "lessConfigKey_drv a b \<longleftrightarrow>
     sectionName a < sectionName b \<or> entryKey a < entryKey b \<or> index a < index b"

definition sortedConfigKeys_drv :: "goRuntime \<Rightarrow> rangeSite \<Rightarrow> configMap \<Rightarrow> rawConfigKey list" where
  "sortedConfigKeys_drv rt site cfgMap =
     sortSlice rt lessConfigKey_drv (rangeOrder rt site (map fst cfgMap))"

fun qemuExtractRawConfigKeys_loop :: "(string \<times> string) list \<Rightarrow> configMap \<Rightarrow> panic + configMap" where
  "qemuExtractRawConfigKeys_loop [] rv = Inr rv"
| "qemuExtractRawConfigKeys_loop ((rawKey, v) # rest) rv =
     (case rawConfigPattern_drv rawKey of
        None \<Rightarrow> qemuExtractRawConfigKeys_loop rest rv
      | Some (m1, m2, m3) \<Rightarrow>
          if m2 \<noteq> [] then
            (case Atoi m2 of
               Inl err \<Rightarrow> Inl (Panic ''unexpected failure in index parsing'')
             | Inr i \<Rightarrow>
                 if i > 9 \<or> i < 0 then Inl (Panic ''unexpected failure in index parsing'')
                 else qemuExtractRawConfigKeys_loop rest
                        (AList.update \<lparr>sectionName = m1, index = nat i, entryKey = m3\<rparr> v rv))
          else qemuExtractRawConfigKeys_loop rest
                 (AList.update \<lparr>sectionName = m1, index = 0, entryKey = m3\<rparr> v rv))"

definition qemuExtractRawConfigKeys :: "(string \<times> string) list \<Rightarrow> panic + configMap" where
  "qemuExtractRawConfigKeys expandedConfig = qemuExtractRawConfigKeys_loop expandedConfig []"

text \<open>
  The loop over the original sections (lines 79 to 139). The loop over the entries of a
  section (lines 105 to 120) is statement for statement the one of \<^verbatim>\<open>updateEntries\<close>, and
  the loop over the new entries (lines 124 to 136) the one of \<^verbatim>\<open>appendEntries\<close>, except
  that it runs over the map itself, in the order of its \<^verbatim>\<open>range\<close>, and not over sorted keys.
\<close>

fun qemuRawCfgOverride_drv_sections ::
  "goRuntime \<Rightarrow> nat \<Rightarrow> cfgSection list \<Rightarrow> (string \<rightharpoonup> nat) \<Rightarrow> cfgSection list \<Rightarrow> configMap
     \<Rightarrow> cfgSection list \<times> configMap" where
  "qemuRawCfgOverride_drv_sections rt pos [] sectionNameCountMap newCfg tmp = (newCfg, tmp)"
| "qemuRawCfgOverride_drv_sections rt pos (section # rest) sectionNameCountMap newCfg tmp =
     (let sectionNameCountMap' =
            (case sectionNameCountMap (name section) of
               Some cnt \<Rightarrow> sectionNameCountMap(name section \<mapsto> cnt + 1)
             | None \<Rightarrow> sectionNameCountMap(name section \<mapsto> 1));
          idx = the (sectionNameCountMap' (name section)) - 1;
          sk = \<lparr>sectionName = name section, index = idx, entryKey = []\<rparr>
      in if map_of tmp sk = Some []
         then qemuRawCfgOverride_drv_sections rt (pos + 1) rest sectionNameCountMap' newCfg
                (AList.delete sk tmp)
         else
           let (es1, tmp1) = updateEntries_loop (entries section) sk [] tmp;
               (es2, tmp2) =
                  appendEntries_loop (rangeOrder rt (InSection pos) (map fst tmp1)) sk es1 tmp1;
               newSection = \<lparr>name = name section, comment = comment section, entries = es2\<rparr>
           in qemuRawCfgOverride_drv_sections rt (pos + 1) rest sectionNameCountMap'
                (newCfg @ [newSection]) tmp2)"

text \<open>
  The rest of the function (lines 141 to 182) is \<^verbatim>\<open>appendSections\<close> with the comparator
  of this file's \<^verbatim>\<open>sortedConfigKeys\<close>.
\<close>

definition qemuRawCfgOverride_drv ::
  "goRuntime \<Rightarrow> cfgSection list \<Rightarrow> (string \<times> string) list \<Rightarrow> panic + cfgSection list" where
  "qemuRawCfgOverride_drv rt cfg expandedConfig =
     (case qemuExtractRawConfigKeys expandedConfig of
        Inl p \<Rightarrow> Inl p
      | Inr tmp \<Rightarrow>
          if length tmp = 0 then Inr cfg
          else
            let (newCfg, tmp') = qemuRawCfgOverride_drv_sections rt 0 cfg Map.empty [] tmp;
                sortedKeys = sortedConfigKeys_drv rt NewSectionKeys tmp';
                sectionMap = appendSections_collect sortedKeys tmp' [];
                rawSections = sortSlice rt lessSection (rangeOrder rt NewSections (map fst sectionMap))
            in Inr (newCfg @ map (sectionValue sectionMap) rawSections))"

subsection \<open>Vocabulary of the specification and sample runtimes\<close>

text \<open>
  The repeat index of the section at position \<open>p\<close>: the number of sections of the same name
  before it in the original list.
\<close>

definition repeatIndex :: "cfgSection list \<Rightarrow> nat \<Rightarrow> nat" where
  "repeatIndex cfg p = length (filter (\<lambda>s. name s = name (cfg ! p)) (take p cfg))"

text \<open>
  The address of the section at position \<open>p\<close> of the original list, and of the entry at
  position \<open>q\<close> in it.
\<close>

definition sectionAddress :: "cfgSection list \<Rightarrow> nat \<Rightarrow> rawConfigKey" where
  "sectionAddress cfg p =
     \<lparr>sectionName = name (cfg ! p), index = repeatIndex cfg p, entryKey = []\<rparr>"

definition entryAddress :: "cfgSection list \<Rightarrow> nat \<Rightarrow> nat \<Rightarrow> rawConfigKey" where
  "entryAddress cfg p q =
     \<lparr>sectionName = name (cfg ! p), index = repeatIndex cfg p,
      entryKey = key (entries (cfg ! p) ! q)\<rparr>"

text \<open>
  An override of an entry key reaches the first entry with that key: \<open>q\<close> is the position
  of an entry of section \<open>p\<close> with no entry of the same key before it.
\<close>

definition firstWithKey :: "cfgSection list \<Rightarrow> nat \<Rightarrow> nat \<Rightarrow> bool" where
  "firstWithKey cfg p q \<longleftrightarrow>
     p < length cfg \<and> q < length (entries (cfg ! p)) \<and>
     (\<forall>q' < q. key (entries (cfg ! p) ! q') \<noteq> key (entries (cfg ! p) ! q))"

text \<open>
  The expected results, in the words of the specification: the list with the value of one
  entry replaced and everything else in place, and the list without the section at one
  position.
\<close>

definition setEntry :: "cfgSection list \<Rightarrow> nat \<Rightarrow> nat \<Rightarrow> string \<Rightarrow> cfgSection list" where
  "setEntry cfg p q v =
     cfg[p := (cfg ! p)\<lparr>entries :=
       (entries (cfg ! p))[q := \<lparr>key = key (entries (cfg ! p) ! q), val = v\<rparr>]\<rparr>]"

definition dropSection :: "cfgSection list \<Rightarrow> nat \<Rightarrow> cfgSection list" where
  "dropSection cfg p = take p cfg @ drop (Suc p) cfg"



text \<open>A key addresses occurrence \<open>i\<close> of the sections named \<open>S\<close> (or an entry of it).\<close>

definition inGroup :: "rawConfigKey \<Rightarrow> string \<Rightarrow> nat \<Rightarrow> bool" where
  "inGroup k S i \<longleftrightarrow> sectionName k = S \<and> index k = i"

text \<open>
  The content of \<^verbatim>\<open>sectionCounts\<close> after the sections \<open>pre\<close> have been visited, and the
  merge loop resumed at position \<open>pos\<close> of the original list.
\<close>

definition countsOf :: "cfgSection list \<Rightarrow> (string \<rightharpoonup> nat)" where
  "countsOf pre =
     (\<lambda>S. let n = length (filter (\<lambda>s. name s = S) pre) in if n = 0 then None else Some n)"

definition mergeFrom ::
  "goRuntime \<Rightarrow> cfgSection list \<Rightarrow> nat \<Rightarrow> cfgSection list \<Rightarrow> configMap \<Rightarrow> cfgSection list \<times> configMap" where
  "mergeFrom rt cfg pos newCfg cfgMap =
     updateSections_loop rt pos (drop pos cfg) (countsOf (take pos cfg)) newCfg cfgMap"

text \<open>
  What an override map does to the original list, told position by position and by the
  addresses of the original list only. The section at position \<open>j\<close> is deleted when the map
  holds the empty string for its bare address. The override map loses, at position \<open>j\<close>,
  the bare key of a deleted section, and every key of the occurrence of a section that
  stays; \<open>remainingAt m cfg pos\<close> is what is left of \<open>m\<close> after the positions before \<open>pos\<close>.
\<close>

definition deletedAt :: "configMap \<Rightarrow> cfgSection list \<Rightarrow> nat \<Rightarrow> bool" where
  "deletedAt m cfg j \<longleftrightarrow> map_of m (sectionAddress cfg j) = Some []"

definition consumedAt :: "configMap \<Rightarrow> cfgSection list \<Rightarrow> nat \<Rightarrow> rawConfigKey \<Rightarrow> bool" where
  "consumedAt m cfg j K \<longleftrightarrow>
     (if deletedAt m cfg j then K = sectionAddress cfg j
      else inGroup K (name (cfg ! j)) (repeatIndex cfg j))"

definition remainingAt :: "configMap \<Rightarrow> cfgSection list \<Rightarrow> nat \<Rightarrow> configMap" where
  "remainingAt m cfg pos =
     filter (\<lambda>kv. \<not> list_ex (\<lambda>j. consumedAt m cfg j (fst kv)) [0..<pos]) m"

text \<open>
  The entries of a section after the overrides of the map for occurrence \<open>i\<close> of \<open>S\<close>: the
  first entry of each key takes the value the map has for it, if any (the empty string
  too); a later entry of a key seen before is kept as it is.
\<close>

fun overrideEntries ::
  "configMap \<Rightarrow> string \<Rightarrow> nat \<Rightarrow> string list \<Rightarrow> cfgEntry list \<Rightarrow> cfgEntry list" where
  "overrideEntries m S i seen [] = []"
| "overrideEntries m S i seen (e # es) =
     (if key e \<in> set seen then e
      else (case map_of m \<lparr>sectionName = S, index = i, entryKey = key e\<rparr> of
              Some v \<Rightarrow> \<lparr>key = key e, val = v\<rparr>
            | None \<Rightarrow> e))
     # overrideEntries m S i (key e # seen) es"

text \<open>
  Section \<open>s'\<close> is the section at position \<open>p\<close> of the original list with the overrides
  addressed at it applied: same name and comment; first the original entries, overridden
  as above; then, in some order, one new entry for each key of the map that addresses this
  occurrence (by the name and the repeat index the section has in the original list) with
  an entry key that no original entry has. An override of the bare address with a value is
  among these keys, unless the section has an entry with the empty key.
\<close>

definition appliedAt :: "configMap \<Rightarrow> cfgSection list \<Rightarrow> nat \<Rightarrow> cfgSection \<Rightarrow> bool" where
  "appliedAt m cfg p s' \<longleftrightarrow>
     name s' = name (cfg ! p) \<and> comment s' = comment (cfg ! p) \<and>
     take (length (entries (cfg ! p))) (entries s') =
       overrideEntries m (name (cfg ! p)) (repeatIndex cfg p) [] (entries (cfg ! p)) \<and>
     mset (drop (length (entries (cfg ! p))) (entries s')) =
       mset (map (\<lambda>kv. \<lparr>key = entryKey (fst kv), val = snd kv\<rparr>)
              (filter (\<lambda>kv. inGroup (fst kv) (name (cfg ! p)) (repeatIndex cfg p) \<and>
                            entryKey (fst kv) \<notin> key ` set (entries (cfg ! p))) m))"

text \<open>
  Key \<open>e\<close> is below key \<open>y\<close>: not after it in section name and index, and before it in
  entry key. (The insertion sort with the comparator of \<^verbatim>\<open>sortedConfigKeys\<close> never leaves
  a key behind one it is below.)
\<close>

definition below :: "rawConfigKey \<Rightarrow> rawConfigKey \<Rightarrow> bool" where
  "below e y \<longleftrightarrow>
     sectionName e \<le> sectionName y \<and> index e \<le> index y \<and> entryKey e < entryKey y"

text \<open>
  The runtime of the monolithic version seen from the refactored one: its loop over the new
  entries is \<^verbatim>\<open>appendEntries\<close> with a sort that leaves the slice as it is.
\<close>

definition unsorted :: "goRuntime \<Rightarrow> goRuntime" where
  "unsorted rt = rt\<lparr>sortSlice := (\<lambda>lt ks. ks)\<rparr>"

text \<open>
  Two runtimes for running the code on concrete inputs. Both sort short slices as Go does.
  The first visits the keys of a map in the order in which they were inserted; the second
  does so too, except that it visits the map of new sections in the opposite order.
\<close>

definition runtimeInOrder :: goRuntime where
  "runtimeInOrder = \<lparr>rangeOrder = (\<lambda>site ks. ks), sortSlice = insertionSort\<rparr>"

definition runtimeMixed :: goRuntime where
  "runtimeMixed =
     \<lparr>rangeOrder = (\<lambda>site ks. if site = NewSections then rev ks else ks),
      sortSlice = insertionSort\<rparr>"

section \<open>Properties\<close>

subsection \<open>The sample runtimes are admissible\<close>

lemma mset_insertLeft: "mset (insertLeft lt x ys) = add_mset x (mset ys)"
proof (induction ys rule: rev_induct)
  case Nil
  show ?case by (simp add: insertLeft.simps)
next
  case (snoc y ys)
  show ?case
    by (subst insertLeft.simps) (simp add: snoc.IH)
qed

lemma mset_foldl_insertLeft:
  "mset (foldl (\<lambda>done x. insertLeft lt x done) acc xs) = mset acc + mset xs"
  by (induction xs arbitrary: acc) (simp_all add: mset_insertLeft)

lemma mset_insertionSort: "mset (insertionSort lt xs) = mset xs"
  by (simp add: insertionSort_def mset_foldl_insertLeft)

lemma valid_runtimeInOrder: "valid_runtime runtimeInOrder"
  by (simp add: valid_runtime_def permuting_def runtimeInOrder_def mset_insertionSort)

lemma valid_runtimeMixed: "valid_runtime runtimeMixed"
  by (simp add: valid_runtime_def permuting_def runtimeMixed_def mset_insertionSort)

subsection \<open>The merge pass, position by position\<close>

lemma permuting_set_range: "permuting rt \<Longrightarrow> set (rangeOrder rt site ks) = set ks"
  by (metis permuting_def set_mset_mset)

lemma permuting_set_sort: "permuting rt \<Longrightarrow> set (sortSlice rt lt ks) = set ks"
  by (metis permuting_def set_mset_mset)

lemma permuting_range_Nil: "permuting rt \<Longrightarrow> rangeOrder rt site [] = []"
  by (metis permuting_def mset_zero_iff)

lemma permuting_sort_Nil: "permuting rt \<Longrightarrow> sortSlice rt lt [] = []"
  by (metis permuting_def mset_zero_iff)

lemma permuting_range_single: "permuting rt \<Longrightarrow> rangeOrder rt site [k] = [k]"
  by (metis permuting_def mset_single_iff_right mset.simps)

lemma permuting_sort_single: "permuting rt \<Longrightarrow> sortSlice rt lt [k] = [k]"
  by (metis permuting_def mset_single_iff_right mset.simps)

lemma permuting_unsorted: "permuting rt \<Longrightarrow> permuting (unsorted rt)"
  by (simp add: permuting_def unsorted_def)

lemma set_sortedConfigKeys: "permuting rt \<Longrightarrow> set (sortedConfigKeys rt site m) = fst ` set m"
  by (simp add: sortedConfigKeys_def permuting_set_range permuting_set_sort)

lemma cfgEntry_eta: "\<lparr>key = key e, val = val e\<rparr> = (e::cfgEntry)"
  by simp

lemma cfgSection_eta: "\<lparr>name = name s, comment = comment s, entries = entries s\<rparr> = (s::cfgSection)"
  by simp

lemma updateEntries_loop_untouched:
  "\<forall>e \<in> set es. \<lparr>sectionName = sectionName sk, index = index sk, entryKey = key e\<rparr> \<notin> fst ` set m
   \<Longrightarrow> updateEntries_loop es sk rv m = (rv @ es, m)"
proof (induction es arbitrary: rv)
  case Nil
  show ?case by simp
next
  case (Cons e es)
  have "map_of m \<lparr>sectionName = sectionName sk, index = index sk, entryKey = key e\<rparr> = None"
    using Cons.prems by (simp add: map_of_eq_None_iff)
  then show ?case using Cons by simp
qed

lemma updateEntries_loop_miss:
  "\<forall>k \<in> fst ` set m. \<not> inGroup k (sectionName sk) (index sk)
   \<Longrightarrow> updateEntries_loop es sk rv m = (rv @ es, m)"
proof (rule updateEntries_loop_untouched, intro ballI notI)
  fix e
  assume a: "\<forall>k \<in> fst ` set m. \<not> inGroup k (sectionName sk) (index sk)"
    and b: "\<lparr>sectionName = sectionName sk, index = index sk, entryKey = key e\<rparr> \<in> fst ` set m"
  from a b have "\<not> inGroup \<lparr>sectionName = sectionName sk, index = index sk, entryKey = key e\<rparr>
     (sectionName sk) (index sk)" by blast
  then show False by (simp add: inGroup_def)
qed

lemma appendEntries_loop_miss:
  "\<forall>k \<in> set ks. \<not> inGroup k (sectionName sk) (index sk)
   \<Longrightarrow> appendEntries_loop ks sk es m = (es, m)"
  by (induction ks arbitrary: es m) (auto simp: inGroup_def)

lemma appendEntries_miss:
  "permuting rt \<Longrightarrow> \<forall>k \<in> fst ` set m. \<not> inGroup k (sectionName sk) (index sk)
   \<Longrightarrow> appendEntries rt site es sk m = (es, m)"
  unfolding appendEntries_def
  by (rule appendEntries_loop_miss) (simp add: set_sortedConfigKeys)


lemma countsOf_Nil: "countsOf [] = Map.empty"
  by (simp add: countsOf_def)

lemma countsOf_snoc:
  "(case countsOf pre (name s) of
      Some cnt \<Rightarrow> (countsOf pre)(name s \<mapsto> cnt + 1)
    | None \<Rightarrow> (countsOf pre)(name s \<mapsto> 1)) = countsOf (pre @ [s])"
  by (rule ext) (simp add: countsOf_def Let_def)

lemma countsOf_snoc_index:
  "the (countsOf (pre @ [s]) (name s)) - 1 = length (filter (\<lambda>t. name t = name s) pre)"
  by (simp add: countsOf_def)

lemma updateSections_mergeFrom: "updateSections rt cfg m = mergeFrom rt cfg 0 [] m"
  by (simp add: updateSections_def mergeFrom_def countsOf_Nil)

lemma mergeFrom_end: "length cfg \<le> pos \<Longrightarrow> mergeFrom rt cfg pos acc m = (acc, m)"
  by (simp add: mergeFrom_def)

lemma mergeFrom_step:
  assumes "pos < length cfg"
  shows "mergeFrom rt cfg pos acc m =
     (let s = cfg ! pos;
          sk = \<lparr>sectionName = name s, index = repeatIndex cfg pos, entryKey = []\<rparr>
      in if map_of m sk = Some [] then mergeFrom rt cfg (Suc pos) acc (AList.delete sk m)
         else
           let (es1, m1) = updateEntries (entries s) sk m;
               (es2, m2) = appendEntries rt (InSection pos) es1 sk m1
           in mergeFrom rt cfg (Suc pos)
                (acc @ [\<lparr>name = name s, comment = comment s, entries = es2\<rparr>]) m2)"
proof -
  have d: "drop pos cfg = cfg ! pos # drop (Suc pos) cfg"
    using assms by (simp add: Cons_nth_drop_Suc)
  have t: "take (Suc pos) cfg = take pos cfg @ [cfg ! pos]"
    using assms by (simp add: take_Suc_conv_app_nth)
  have i: "the (countsOf (take pos cfg @ [cfg ! pos]) (name (cfg ! pos))) - 1 = repeatIndex cfg pos"
    by (simp only: countsOf_snoc_index repeatIndex_def)
  show ?thesis
    unfolding mergeFrom_def d t
    by (simp only: updateSections_loop.simps countsOf_snoc Let_def i Suc_eq_plus1)
qed


lemma mergeFrom_miss:
  assumes "permuting rt" and "pos < length cfg"
    and "\<forall>k \<in> fst ` set m. \<not> inGroup k (name (cfg ! pos)) (repeatIndex cfg pos)"
  shows "mergeFrom rt cfg pos acc m = mergeFrom rt cfg (Suc pos) (acc @ [cfg ! pos]) m"
proof -
  let ?sk = "\<lparr>sectionName = name (cfg ! pos), index = repeatIndex cfg pos, entryKey = []\<rparr>"
  have g: "\<forall>k \<in> fst ` set m. \<not> inGroup k (sectionName ?sk) (index ?sk)"
    using assms(3) by simp
  have "?sk \<notin> fst ` set m"
  proof
    assume "?sk \<in> fst ` set m"
    from bspec [OF assms(3) this] show False by (simp add: inGroup_def)
  qed
  then have n: "map_of m ?sk = None"
    by (simp add: map_of_eq_None_iff)
  have u: "updateEntries (entries (cfg ! pos)) ?sk m = (entries (cfg ! pos), m)"
    unfolding updateEntries_def using updateEntries_loop_miss [OF g] by simp
  have a: "appendEntries rt (InSection pos) (entries (cfg ! pos)) ?sk m = (entries (cfg ! pos), m)"
    by (rule appendEntries_miss [OF assms(1) g])
  show ?thesis
    by (simp add: mergeFrom_step [OF assms(2)] Let_def n u a cfgSection_eta)
qed

lemma mergeFrom_miss_range:
  assumes "permuting rt" and "hi \<le> length cfg"
    and "\<forall>j. lo \<le> j \<and> j < hi \<longrightarrow>
           (\<forall>k \<in> fst ` set m. \<not> inGroup k (name (cfg ! j)) (repeatIndex cfg j))"
    and "lo \<le> hi"
  shows "mergeFrom rt cfg lo acc m = mergeFrom rt cfg hi (acc @ take (hi - lo) (drop lo cfg)) m"
  using assms(3,4)
proof (induction "hi - lo" arbitrary: lo acc)
  case 0
  then show ?case by simp
next
  case (Suc n)
  then have lt: "lo < hi" and n: "n = hi - Suc lo" by simp_all
  have len: "lo < length cfg" using lt assms(2) by simp
  have here: "\<forall>k \<in> fst ` set m. \<not> inGroup k (name (cfg ! lo)) (repeatIndex cfg lo)"
    using Suc.prems(1) lt by simp
  have rest: "\<forall>j. Suc lo \<le> j \<and> j < hi \<longrightarrow>
           (\<forall>k \<in> fst ` set m. \<not> inGroup k (name (cfg ! j)) (repeatIndex cfg j))"
    using Suc.prems(1) by simp
  have "mergeFrom rt cfg lo acc m = mergeFrom rt cfg (Suc lo) (acc @ [cfg ! lo]) m"
    by (rule mergeFrom_miss [OF assms(1) len here])
  also have "\<dots> = mergeFrom rt cfg hi ((acc @ [cfg ! lo]) @ take (hi - Suc lo) (drop (Suc lo) cfg)) m"
    using Suc.hyps(1) [OF n rest] lt by simp
  also have "(acc @ [cfg ! lo]) @ take (hi - Suc lo) (drop (Suc lo) cfg)
      = acc @ take (hi - lo) (drop lo cfg)"
  proof -
    have "drop lo cfg = cfg ! lo # drop (Suc lo) cfg"
      using len by (simp add: Cons_nth_drop_Suc)
    moreover have "hi - lo = Suc (hi - Suc lo)" using lt by simp
    ultimately show ?thesis by simp
  qed
  finally show ?case .
qed

lemma mergeFrom_empty_map:
  assumes "permuting rt" and "lo \<le> length cfg"
  shows "mergeFrom rt cfg lo acc [] = (acc @ drop lo cfg, [])"
proof -
  have "mergeFrom rt cfg lo acc [] =
      mergeFrom rt cfg (length cfg) (acc @ take (length cfg - lo) (drop lo cfg)) []"
    by (rule mergeFrom_miss_range [OF assms(1)]) (simp_all add: assms(2))
  then show ?thesis by (simp add: mergeFrom_end)
qed

lemma repeatIndex_less:
  assumes "j < p" and "p < length cfg" and "name (cfg ! j) = name (cfg ! p)"
  shows "repeatIndex cfg j < repeatIndex cfg p"
proof -
  let ?P = "\<lambda>s. name s = name (cfg ! p)"
  have j: "j < length (take p cfg)" using assms by simp
  have "take p cfg = take j (take p cfg) @ take p cfg ! j # drop (Suc j) (take p cfg)"
    by (rule id_take_nth_drop [OF j])
  moreover have "take j (take p cfg) = take j cfg" using assms(1) by (simp add: min_def)
  moreover have "take p cfg ! j = cfg ! j" using assms(1) by simp
  ultimately have split: "take p cfg = take j cfg @ cfg ! j # drop (Suc j) (take p cfg)" by simp
  have "filter ?P (take p cfg) =
      filter ?P (take j cfg @ cfg ! j # drop (Suc j) (take p cfg))"
    by (subst split) (rule refl)
  also have "\<dots> = filter ?P (take j cfg) @ cfg ! j # filter ?P (drop (Suc j) (take p cfg))"
    using assms(3) by simp
  finally have "length (filter ?P (take j cfg)) < length (filter ?P (take p cfg))" by simp
  then show ?thesis by (simp add: repeatIndex_def assms(3))
qed

lemma group_unique:
  assumes "j < length cfg" and "p < length cfg" and "j \<noteq> p"
  shows "\<not> (name (cfg ! j) = name (cfg ! p) \<and> repeatIndex cfg j = repeatIndex cfg p)"
proof
  assume a: "name (cfg ! j) = name (cfg ! p) \<and> repeatIndex cfg j = repeatIndex cfg p"
  show False
  proof (cases "j < p")
    case True
    then show False using repeatIndex_less [OF True assms(2)] a by simp
  next
    case False
    then have "p < j" using assms(3) by simp
    then show False using repeatIndex_less [OF _ assms(1), of p] a by simp
  qed
qed

lemma fst_set_delete: "fst ` set (AList.delete k al) = fst ` set al - {k}"
  by (induction al) auto

lemma updateEntries_loop_hit:
  assumes "map_of m K = Some v"
    and "K = \<lparr>sectionName = sectionName sk, index = index sk, entryKey = k\<rparr>"
    and "\<forall>K' \<in> fst ` set m. inGroup K' (sectionName sk) (index sk) \<longrightarrow> K' = K"
    and "q < length es" and "key (es ! q) = k" and "\<forall>q' < q. key (es ! q') \<noteq> k"
  shows "updateEntries_loop es sk rv m = (rv @ es[q := \<lparr>key = k, val = v\<rparr>], AList.delete K m)"
  using assms(4-6)
proof (induction es arbitrary: q rv)
  case Nil
  then show ?case by simp
next
  case (Cons e es)
  show ?case
  proof (cases q)
    case 0
    then have ke: "key e = k" using Cons.prems by simp
    have rest: "\<forall>e' \<in> set es.
        \<lparr>sectionName = sectionName sk, index = index sk, entryKey = key e'\<rparr>
          \<notin> fst ` set (AList.delete K m)"
    proof (intro ballI notI)
      fix e' assume "\<lparr>sectionName = sectionName sk, index = index sk, entryKey = key e'\<rparr>
          \<in> fst ` set (AList.delete K m)"
      then have i: "\<lparr>sectionName = sectionName sk, index = index sk, entryKey = key e'\<rparr> \<in> fst ` set m"
        and n: "\<lparr>sectionName = sectionName sk, index = index sk, entryKey = key e'\<rparr> \<noteq> K"
        by (simp_all add: fst_set_delete)
      from bspec [OF assms(3) i]
      have "\<lparr>sectionName = sectionName sk, index = index sk, entryKey = key e'\<rparr> = K"
        by (simp add: inGroup_def)
      with n show False by simp
    qed
    show ?thesis
      using 0 ke assms(1,2) updateEntries_loop_untouched [OF rest]
      by simp
  next
    case (Suc q')
    then have ne: "key e \<noteq> k" using Cons.prems(3) by auto
    have "\<lparr>sectionName = sectionName sk, index = index sk, entryKey = key e\<rparr> \<notin> fst ` set m"
    proof
      assume i: "\<lparr>sectionName = sectionName sk, index = index sk, entryKey = key e\<rparr> \<in> fst ` set m"
      from bspec [OF assms(3) i]
      have "\<lparr>sectionName = sectionName sk, index = index sk, entryKey = key e\<rparr> = K"
        by (simp add: inGroup_def)
      then show False using ne assms(2) by simp
    qed
    then have n: "map_of m \<lparr>sectionName = sectionName sk, index = index sk, entryKey = key e\<rparr> = None"
      by (simp add: map_of_eq_None_iff)
    have "q' < length es" "key (es ! q') = k" "\<forall>q'' < q'. key (es ! q'') \<noteq> k"
      using Cons.prems Suc by auto
    from Cons.IH [OF this] show ?thesis
      using Suc n by simp
  qed
qed

subsection \<open>The fast path\<close>

lemma extractRawConfigKeys_loop_nomatch:
  "\<forall>k \<in> fst ` set dict. rawConfigPattern k = None \<Longrightarrow> extractRawConfigKeys_loop dict rv = Inr rv"
  by (induction dict arbitrary: rv) auto

lemma qemuExtractRawConfigKeys_loop_nomatch:
  "\<forall>k \<in> fst ` set dict. rawConfigPattern_drv k = None \<Longrightarrow> qemuExtractRawConfigKeys_loop dict rv = Inr rv"
  by (induction dict arbitrary: rv) auto

text \<open>
  C8. When no key of the dictionary matches the pattern (the empty dictionary included), the
  override map is empty and the operation returns the section list it was given, through
  the early return; no merge and no append pass runs. This holds in both versions, each with
  its own pattern, and whatever the runtime does.
\<close>

theorem identity_fast_path:
  "((\<forall>k \<in> fst ` set dict. rawConfigPattern k = None) \<longrightarrow>
      extractRawConfigKeys dict = Inr [] \<and> qemuRawCfgOverride rt cfg dict = Inr cfg) \<and>
   ((\<forall>k \<in> fst ` set dict. rawConfigPattern_drv k = None) \<longrightarrow>
      qemuExtractRawConfigKeys dict = Inr [] \<and> qemuRawCfgOverride_drv rt cfg dict = Inr cfg)"
  by (simp add: qemuRawCfgOverride_def extractRawConfigKeys_def extractRawConfigKeys_loop_nomatch
      qemuRawCfgOverride_drv_def qemuExtractRawConfigKeys_def qemuExtractRawConfigKeys_loop_nomatch)

theorem identity_fast_path_witness:
  "rawConfigPattern ''limits.cpu'' = None \<and> rawConfigPattern ''raw.qemu.conf'' = None \<and>
   rawConfigPattern_drv ''limits.cpu'' = None \<and> rawConfigPattern_drv ''raw.qemu.conf'' = None \<and>
   qemuRawCfgOverride runtimeInOrder
     [\<lparr>name = ''global'', comment = ''c'', entries = [\<lparr>key = ''value'', val = ''1''\<rparr>]\<rparr>]
     [(''limits.cpu'', ''2''), (''raw.qemu.conf'', ''x'')] =
   Inr [\<lparr>name = ''global'', comment = ''c'', entries = [\<lparr>key = ''value'', val = ''1''\<rparr>]\<rparr>] \<and>
   qemuRawCfgOverride_drv runtimeInOrder
     [\<lparr>name = ''global'', comment = ''c'', entries = [\<lparr>key = ''value'', val = ''1''\<rparr>]\<rparr>]
     [(''limits.cpu'', ''2''), (''raw.qemu.conf'', ''x'')] =
   Inr [\<lparr>name = ''global'', comment = ''c'', entries = [\<lparr>key = ''value'', val = ''1''\<rparr>]\<rparr>] \<and>
   qemuRawCfgOverride runtimeInOrder
     [\<lparr>name = ''global'', comment = ''c'', entries = [\<lparr>key = ''value'', val = ''1''\<rparr>]\<rparr>] [] =
   Inr [\<lparr>name = ''global'', comment = ''c'', entries = [\<lparr>key = ''value'', val = ''1''\<rparr>]\<rparr>]"
proof -
  have a: "\<forall>k \<in> fst ` set [(''limits.cpu'', ''2''), (''raw.qemu.conf'', ''x'')]. rawConfigPattern k = None"
    by (simp add: rawConfigPattern_def)
  have b: "\<forall>k \<in> fst ` set [(''limits.cpu'', ''2''), (''raw.qemu.conf'', ''x'')]. rawConfigPattern_drv k = None"
    by (simp add: rawConfigPattern_drv_def)
  show ?thesis
    using a b
      identity_fast_path [of "[(''limits.cpu'', ''2''), (''raw.qemu.conf'', ''x'')]" runtimeInOrder
        "[\<lparr>name = ''global'', comment = ''c'', entries = [\<lparr>key = ''value'', val = ''1''\<rparr>]\<rparr>]"]
      identity_fast_path [of "[]" runtimeInOrder
        "[\<lparr>name = ''global'', comment = ''c'', entries = [\<lparr>key = ''value'', val = ''1''\<rparr>]\<rparr>]"]
    by simp
qed

subsection \<open>The order of new sections\<close>

text \<open>
  C3. The comparator of the final sort, \<^const>\<open>lessSection\<close>, is not the lexicographic order
  on (section name, index): it says that (a, 5) is before (b, 1) and that (b, 1) is before
  (a, 5). With the keys \<^verbatim>\<open>raw.qemu.config.a[5].k\<close> and \<^verbatim>\<open>raw.qemu.config.b[1].k\<close> on an empty
  list, a run in which the map of new sections is visited with section a first appends
  section b before section a, in both versions.
\<close>

theorem new_sections_not_lexicographic:
  "qemuRawCfgOverride runtimeMixed []
     [(''raw.qemu.config.a[5].k'', ''1''), (''raw.qemu.config.b[1].k'', ''2'')]
   = Inr [\<lparr>name = ''b'', comment = [], entries = [\<lparr>key = ''k'', val = ''2''\<rparr>]\<rparr>,
          \<lparr>name = ''a'', comment = [], entries = [\<lparr>key = ''k'', val = ''1''\<rparr>]\<rparr>] \<and>
   qemuRawCfgOverride_drv runtimeMixed []
     [(''raw.qemu.config.a[5].k'', ''1''), (''raw.qemu.config.b[1].k'', ''2'')]
   = Inr [\<lparr>name = ''b'', comment = [], entries = [\<lparr>key = ''k'', val = ''2''\<rparr>]\<rparr>,
          \<lparr>name = ''a'', comment = [], entries = [\<lparr>key = ''k'', val = ''1''\<rparr>]\<rparr>] \<and>
   lessSection \<lparr>sectionName = ''a'', index = 5, entryKey = []\<rparr>
               \<lparr>sectionName = ''b'', index = 1, entryKey = []\<rparr> \<and>
   lessSection \<lparr>sectionName = ''b'', index = 1, entryKey = []\<rparr>
               \<lparr>sectionName = ''a'', index = 5, entryKey = []\<rparr>"
  by code_simp

subsection \<open>One override for an existing entry\<close>

lemma mergeFrom_hit_entry:
  assumes "permuting rt" and "firstWithKey cfg p q"
    and "map_of m (entryAddress cfg p q) = Some v"
    and "\<forall>K' \<in> fst ` set m. inGroup K' (name (cfg ! p)) (repeatIndex cfg p) \<longrightarrow> K' = entryAddress cfg p q"
    and "\<not> (key (entries (cfg ! p) ! q) = [] \<and> v = [])"
  shows "mergeFrom rt cfg p acc m =
     mergeFrom rt cfg (Suc p)
       (acc @ [(cfg ! p)\<lparr>entries :=
          (entries (cfg ! p))[q := \<lparr>key = key (entries (cfg ! p) ! q), val = v\<rparr>]\<rparr>])
       (AList.delete (entryAddress cfg p q) m)"
proof -
  let ?sk = "\<lparr>sectionName = name (cfg ! p), index = repeatIndex cfg p, entryKey = []\<rparr>"
  let ?K = "entryAddress cfg p q"
  let ?k = "key (entries (cfg ! p) ! q)"
  have p: "p < length cfg" and q: "q < length (entries (cfg ! p))"
    and first: "\<forall>q' < q. key (entries (cfg ! p) ! q') \<noteq> ?k"
    using assms(2) by (simp_all add: firstWithKey_def)
  have Keq: "?K = \<lparr>sectionName = sectionName ?sk, index = index ?sk, entryKey = ?k\<rparr>"
    by (simp add: entryAddress_def)
  have only: "\<forall>K' \<in> fst ` set m. inGroup K' (sectionName ?sk) (index ?sk) \<longrightarrow> K' = ?K"
    using assms(4) by simp
  have nodel: "map_of m ?sk \<noteq> Some []"
  proof (cases "?sk \<in> fst ` set m")
    case True
    from bspec [OF assms(4) True] have "?sk = ?K" by (simp add: inGroup_def)
    then show ?thesis using assms(3,5) by (auto simp: entryAddress_def)
  next
    case False
    then have "map_of m ?sk = None" by (simp add: map_of_eq_None_iff)
    then show ?thesis by simp
  qed
  have u: "updateEntries (entries (cfg ! p)) ?sk m =
      ((entries (cfg ! p))[q := \<lparr>key = ?k, val = v\<rparr>], AList.delete ?K m)"
    unfolding updateEntries_def
    using updateEntries_loop_hit [OF assms(3) Keq only q refl first, of "[]"] by simp
  have g: "\<forall>k \<in> fst ` set (AList.delete ?K m). \<not> inGroup k (sectionName ?sk) (index ?sk)"
  proof (intro ballI notI)
    fix k assume k: "k \<in> fst ` set (AList.delete ?K m)" and i: "inGroup k (sectionName ?sk) (index ?sk)"
    from k have km: "k \<in> fst ` set m" and ne: "k \<noteq> ?K" by (simp_all add: fst_set_delete)
    from bspec [OF only km] i ne show False by simp
  qed
  have a: "appendEntries rt (InSection p) ((entries (cfg ! p))[q := \<lparr>key = ?k, val = v\<rparr>]) ?sk
       (AList.delete ?K m) = ((entries (cfg ! p))[q := \<lparr>key = ?k, val = v\<rparr>], AList.delete ?K m)"
    by (rule appendEntries_miss [OF assms(1) g])
  have r: "\<lparr>name = name (cfg ! p), comment = comment (cfg ! p),
       entries = (entries (cfg ! p))[q := \<lparr>key = ?k, val = v\<rparr>]\<rparr>
     = (cfg ! p)\<lparr>entries := (entries (cfg ! p))[q := \<lparr>key = ?k, val = v\<rparr>]\<rparr>"
    by simp
  show ?thesis
    by (simp add: mergeFrom_step [OF p] Let_def nodel u a r)
qed

lemma mergeFrom_delete:
  assumes "p < length cfg" and "map_of m (sectionAddress cfg p) = Some []"
  shows "mergeFrom rt cfg p acc m = mergeFrom rt cfg (Suc p) acc (AList.delete (sectionAddress cfg p) m)"
  using assms(2) by (simp add: mergeFrom_step [OF assms(1)] Let_def sectionAddress_def)

lemma other_positions_miss:
  assumes "p < length cfg" and "j < length cfg" and "j \<noteq> p"
    and "\<forall>k \<in> fst ` set m. inGroup k (name (cfg ! p)) (repeatIndex cfg p)"
  shows "\<forall>k \<in> fst ` set m. \<not> inGroup k (name (cfg ! j)) (repeatIndex cfg j)"
proof (intro ballI notI)
  fix k assume k: "k \<in> fst ` set m" and i: "inGroup k (name (cfg ! j)) (repeatIndex cfg j)"
  from bspec [OF assms(4) k] i
  have "name (cfg ! j) = name (cfg ! p) \<and> repeatIndex cfg j = repeatIndex cfg p"
    by (auto simp: inGroup_def)
  with group_unique [OF assms(2,1,3)] show False by simp
qed

lemma single_override_merge:
  assumes "permuting rt" and "firstWithKey cfg p q"
    and "\<not> (key (entries (cfg ! p) ! q) = [] \<and> v = [])"
  shows "updateSections rt cfg [(entryAddress cfg p q, v)] = (setEntry cfg p q v, [])"
proof -
  let ?K = "entryAddress cfg p q"
  let ?m = "[(?K, v)]"
  let ?s' = "(cfg ! p)\<lparr>entries :=
          (entries (cfg ! p))[q := \<lparr>key = key (entries (cfg ! p) ! q), val = v\<rparr>]\<rparr>"
  have p: "p < length cfg" using assms(2) by (simp add: firstWithKey_def)
  have grp: "\<forall>k \<in> fst ` set ?m. inGroup k (name (cfg ! p)) (repeatIndex cfg p)"
    by (simp add: inGroup_def entryAddress_def)
  have before: "\<forall>j. 0 \<le> j \<and> j < p \<longrightarrow>
      (\<forall>k \<in> fst ` set ?m. \<not> inGroup k (name (cfg ! j)) (repeatIndex cfg j))"
  proof (intro allI impI)
    fix j assume "0 \<le> j \<and> j < p"
    then have "j < length cfg" "j \<noteq> p" using p by simp_all
    then show "\<forall>k \<in> fst ` set ?m. \<not> inGroup k (name (cfg ! j)) (repeatIndex cfg j)"
      by (rule other_positions_miss [OF p _ _ grp])
  qed
  have "updateSections rt cfg ?m = mergeFrom rt cfg 0 [] ?m"
    by (rule updateSections_mergeFrom)
  also have "\<dots> = mergeFrom rt cfg p ([] @ take (p - 0) (drop 0 cfg)) ?m"
    by (rule mergeFrom_miss_range [OF assms(1) _ before]) (use p in simp_all)
  also have "\<dots> = mergeFrom rt cfg p (take p cfg) ?m" by simp
  also have "\<dots> = mergeFrom rt cfg (Suc p) (take p cfg @ [?s']) (AList.delete ?K ?m)"
    by (rule mergeFrom_hit_entry [OF assms(1,2) _ _ assms(3)]) simp_all
  also have "\<dots> = mergeFrom rt cfg (Suc p) (take p cfg @ [?s']) []" by simp
  also have "\<dots> = ((take p cfg @ [?s']) @ drop (Suc p) cfg, [])"
    by (rule mergeFrom_empty_map [OF assms(1)]) (use p in simp)
  also have "(take p cfg @ [?s']) @ drop (Suc p) cfg = setEntry cfg p q v"
    using p by (simp add: setEntry_def upd_conv_take_nth_drop)
  finally show ?thesis .
qed

lemma sortedConfigKeys_Nil: "permuting rt \<Longrightarrow> sortedConfigKeys rt site [] = []"
  by (simp add: sortedConfigKeys_def permuting_range_Nil permuting_sort_Nil)

lemma sortedConfigKeys_drv_Nil: "permuting rt \<Longrightarrow> sortedConfigKeys_drv rt site [] = []"
  by (simp add: sortedConfigKeys_drv_def permuting_range_Nil permuting_sort_Nil)

lemma appendSections_Nil: "permuting rt \<Longrightarrow> appendSections rt newCfg [] = newCfg"
  by (simp add: appendSections_def sortedConfigKeys_Nil permuting_range_Nil permuting_sort_Nil)



lemma appendEntries_unsorted:
  "appendEntries (unsorted rt) site es sk m =
     appendEntries_loop (rangeOrder rt site (map fst m)) sk es m"
  by (simp add: appendEntries_def sortedConfigKeys_def unsorted_def)

lemma drv_sections_eq:
  "qemuRawCfgOverride_drv_sections rt pos cfg c acc m = updateSections_loop (unsorted rt) pos cfg c acc m"
proof (induction cfg arbitrary: pos c acc m)
  case Nil
  show ?case by simp
next
  case (Cons s rest)
  show ?case
    by (simp only: qemuRawCfgOverride_drv_sections.simps updateSections_loop.simps
        appendEntries_unsorted updateEntries_def Cons.IH)
qed

lemma drv_sections_updateSections:
  "qemuRawCfgOverride_drv_sections rt 0 cfg Map.empty [] m = updateSections (unsorted rt) cfg m"
  by (simp add: drv_sections_eq updateSections_def)

lemma single_override_both:
  assumes "permuting rt" and "firstWithKey cfg p q"
    and "\<not> (key (entries (cfg ! p) ! q) = [] \<and> v = [])"
  shows "(extractRawConfigKeys dict = Inr [(entryAddress cfg p q, v)] \<longrightarrow>
           qemuRawCfgOverride rt cfg dict = Inr (setEntry cfg p q v)) \<and>
         (qemuExtractRawConfigKeys dict = Inr [(entryAddress cfg p q, v)] \<longrightarrow>
           qemuRawCfgOverride_drv rt cfg dict = Inr (setEntry cfg p q v))"
proof -
  have u: "permuting (unsorted rt)" by (rule permuting_unsorted [OF assms(1)])
  show ?thesis
    by (simp add: qemuRawCfgOverride_def qemuRawCfgOverride_drv_def drv_sections_updateSections
        single_override_merge [OF assms] single_override_merge [OF u assms(2,3)]
        appendSections_Nil [OF assms(1)] sortedConfigKeys_drv_Nil [OF assms(1)]
        permuting_range_Nil [OF assms(1)] permuting_sort_Nil [OF assms(1)])
qed

text \<open>
  C7. Let the entry at position \<open>q\<close> of the section at position \<open>p\<close> be the first of its key
  in that section, and let the dictionary hold, among keys that do not match the pattern,
  one override: a non-empty value \<open>v2\<close> for the address of that entry (section name, repeat
  index of position \<open>p\<close>, entry key). Then the result is the original list with the value
  of that one entry replaced by \<open>v2\<close>: the entry keeps its position, every other entry and
  section is unchanged and in place. If \<open>v2\<close> is the value the entry already had, the result
  is the original list. Both versions, any runtime that visits every key once.
\<close>

theorem override_precedence:
  assumes "permuting rt" and "firstWithKey cfg p q" and "v2 \<noteq> []"
  shows "(extractRawConfigKeys dict = Inr [(entryAddress cfg p q, v2)] \<longrightarrow>
           qemuRawCfgOverride rt cfg dict = Inr (setEntry cfg p q v2)) \<and>
         (qemuExtractRawConfigKeys dict = Inr [(entryAddress cfg p q, v2)] \<longrightarrow>
           qemuRawCfgOverride_drv rt cfg dict = Inr (setEntry cfg p q v2)) \<and>
         (val (entries (cfg ! p) ! q) = v2 \<longrightarrow> setEntry cfg p q v2 = cfg)"
proof -
  have "val (entries (cfg ! p) ! q) = v2 \<longrightarrow> setEntry cfg p q v2 = cfg"
    by (auto simp: setEntry_def cfgEntry_eta)
  then show ?thesis
    using single_override_both [OF assms(1,2), of v2 dict] assms(3) by simp
qed

theorem override_precedence_witness:
  "extractRawConfigKeys [(''limits.cpu'', ''2''), (''raw.qemu.config.global[1].value'', ''0'')]
     = Inr [(entryAddress
        [\<lparr>name = ''global'', comment = [], entries = [\<lparr>key = ''value'', val = ''1''\<rparr>]\<rparr>,
         \<lparr>name = ''global'', comment = ''second'',
            entries = [\<lparr>key = ''driver'', val = ''ICH9-LPC''\<rparr>, \<lparr>key = ''value'', val = ''1''\<rparr>]\<rparr>]
        1 1, ''0'')] \<and>
   qemuRawCfgOverride runtimeInOrder
     [\<lparr>name = ''global'', comment = [], entries = [\<lparr>key = ''value'', val = ''1''\<rparr>]\<rparr>,
      \<lparr>name = ''global'', comment = ''second'',
         entries = [\<lparr>key = ''driver'', val = ''ICH9-LPC''\<rparr>, \<lparr>key = ''value'', val = ''1''\<rparr>]\<rparr>]
     [(''limits.cpu'', ''2''), (''raw.qemu.config.global[1].value'', ''0'')]
   = Inr [\<lparr>name = ''global'', comment = [], entries = [\<lparr>key = ''value'', val = ''1''\<rparr>]\<rparr>,
          \<lparr>name = ''global'', comment = ''second'',
             entries = [\<lparr>key = ''driver'', val = ''ICH9-LPC''\<rparr>, \<lparr>key = ''value'', val = ''0''\<rparr>]\<rparr>] \<and>
   qemuRawCfgOverride_drv runtimeInOrder
     [\<lparr>name = ''global'', comment = [], entries = [\<lparr>key = ''value'', val = ''1''\<rparr>]\<rparr>,
      \<lparr>name = ''global'', comment = ''second'',
         entries = [\<lparr>key = ''driver'', val = ''ICH9-LPC''\<rparr>, \<lparr>key = ''value'', val = ''1''\<rparr>]\<rparr>]
     [(''limits.cpu'', ''2''), (''raw.qemu.config.global[1].value'', ''0'')]
   = Inr [\<lparr>name = ''global'', comment = [], entries = [\<lparr>key = ''value'', val = ''1''\<rparr>]\<rparr>,
          \<lparr>name = ''global'', comment = ''second'',
             entries = [\<lparr>key = ''driver'', val = ''ICH9-LPC''\<rparr>, \<lparr>key = ''value'', val = ''0''\<rparr>]\<rparr>]"
proof -
  let ?cfg = "[\<lparr>name = ''global'', comment = [], entries = [\<lparr>key = ''value'', val = ''1''\<rparr>]\<rparr>,
      \<lparr>name = ''global'', comment = ''second'',
         entries = [\<lparr>key = ''driver'', val = ''ICH9-LPC''\<rparr>, \<lparr>key = ''value'', val = ''1''\<rparr>]\<rparr>]"
  let ?dict = "[(''limits.cpu'', ''2''), (''raw.qemu.config.global[1].value'', ''0'')]"
  have rt: "permuting runtimeInOrder"
    using valid_runtimeInOrder by (simp add: valid_runtime_def)
  have f: "firstWithKey ?cfg 1 1"
    by (simp add: firstWithKey_def)
  have v: "''0'' \<noteq> []" by simp
  have e: "extractRawConfigKeys ?dict = Inr [(entryAddress ?cfg 1 1, ''0'')]"
    by code_simp
  have d: "qemuExtractRawConfigKeys ?dict = Inr [(entryAddress ?cfg 1 1, ''0'')]"
    by code_simp
  have s: "setEntry ?cfg 1 1 ''0'' =
     [\<lparr>name = ''global'', comment = [], entries = [\<lparr>key = ''value'', val = ''1''\<rparr>]\<rparr>,
          \<lparr>name = ''global'', comment = ''second'',
             entries = [\<lparr>key = ''driver'', val = ''ICH9-LPC''\<rparr>, \<lparr>key = ''value'', val = ''0''\<rparr>]\<rparr>]"
    by (simp add: setEntry_def)
  show ?thesis
    using override_precedence [OF rt f v, of ?dict] e d s by simp
qed

text \<open>
  C1, as stated, fails: in the scenario of the specification the section keeps its entry
  \<open>value\<close>, with the empty string as its value, in both versions. Neither version ever
  removes an entry from a section.
\<close>

theorem entry_deletion_counterexample:
  "qemuRawCfgOverride runtimeInOrder
     [\<lparr>name = ''global'', comment = [], entries = [\<lparr>key = ''value'', val = ''1''\<rparr>]\<rparr>]
     [(''raw.qemu.config.global.value'', [])]
   \<noteq> Inr [\<lparr>name = ''global'', comment = [], entries = []\<rparr>] \<and>
   qemuRawCfgOverride_drv runtimeInOrder
     [\<lparr>name = ''global'', comment = [], entries = [\<lparr>key = ''value'', val = ''1''\<rparr>]\<rparr>]
     [(''raw.qemu.config.global.value'', [])]
   \<noteq> Inr [\<lparr>name = ''global'', comment = [], entries = []\<rparr>]"
  by code_simp

text \<open>
  C1, amended. Let the entry at position \<open>q\<close> of the section at position \<open>p\<close> be the first of
  its key in that section, its key not empty, and let the dictionary hold, among keys that
  do not match the pattern, one override: the empty string for the address of that entry.
  Then the result is the original list in which that entry has the empty string as its
  value: the entry stays where it is, the section keeps all its entries in their order, and
  every other section is unchanged.
\<close>

theorem entry_deletion_blanks_value:
  assumes "permuting rt" and "firstWithKey cfg p q" and "key (entries (cfg ! p) ! q) \<noteq> []"
  shows "(extractRawConfigKeys dict = Inr [(entryAddress cfg p q, [])] \<longrightarrow>
           qemuRawCfgOverride rt cfg dict = Inr (setEntry cfg p q [])) \<and>
         (qemuExtractRawConfigKeys dict = Inr [(entryAddress cfg p q, [])] \<longrightarrow>
           qemuRawCfgOverride_drv rt cfg dict = Inr (setEntry cfg p q [])) \<and>
         map (map key \<circ> entries) (setEntry cfg p q []) = map (map key \<circ> entries) cfg"
proof -
  have p: "p < length cfg" and q: "q < length (entries (cfg ! p))"
    using assms(2) by (simp_all add: firstWithKey_def)
  have "map key ((entries (cfg ! p))[q := \<lparr>key = key (entries (cfg ! p) ! q), val = []\<rparr>])
      = map key (entries (cfg ! p))"
    using q by (simp add: map_update list_update_same_conv)
  then have "map (map key \<circ> entries) (setEntry cfg p q []) = map (map key \<circ> entries) cfg"
    using p by (simp add: setEntry_def map_update list_update_same_conv)
  then show ?thesis
    using single_override_both [OF assms(1,2), of "[]" dict] assms(3) by simp
qed

theorem entry_deletion_blanks_value_witness:
  "extractRawConfigKeys [(''raw.qemu.config.global.value'', [])]
     = Inr [(entryAddress
        [\<lparr>name = ''global'', comment = [], entries = [\<lparr>key = ''value'', val = ''1''\<rparr>]\<rparr>] 0 0, [])] \<and>
   qemuRawCfgOverride runtimeInOrder
     [\<lparr>name = ''global'', comment = [], entries = [\<lparr>key = ''value'', val = ''1''\<rparr>]\<rparr>]
     [(''raw.qemu.config.global.value'', [])]
   = Inr [\<lparr>name = ''global'', comment = [], entries = [\<lparr>key = ''value'', val = []\<rparr>]\<rparr>] \<and>
   qemuRawCfgOverride_drv runtimeInOrder
     [\<lparr>name = ''global'', comment = [], entries = [\<lparr>key = ''value'', val = ''1''\<rparr>]\<rparr>]
     [(''raw.qemu.config.global.value'', [])]
   = Inr [\<lparr>name = ''global'', comment = [], entries = [\<lparr>key = ''value'', val = []\<rparr>]\<rparr>]"
proof -
  let ?cfg = "[\<lparr>name = ''global'', comment = [], entries = [\<lparr>key = ''value'', val = ''1''\<rparr>]\<rparr>]"
  let ?dict = "[(''raw.qemu.config.global.value'', [])]"
  have rt: "permuting runtimeInOrder"
    using valid_runtimeInOrder by (simp add: valid_runtime_def)
  have f: "firstWithKey ?cfg 0 0"
    by (simp add: firstWithKey_def)
  have k: "key (entries (?cfg ! 0) ! 0) \<noteq> []" by simp
  have e: "extractRawConfigKeys ?dict = Inr [(entryAddress ?cfg 0 0, [])]"
    by code_simp
  have d: "qemuExtractRawConfigKeys ?dict = Inr [(entryAddress ?cfg 0 0, [])]"
    by code_simp
  have s: "setEntry ?cfg 0 0 [] =
     [\<lparr>name = ''global'', comment = [], entries = [\<lparr>key = ''value'', val = []\<rparr>]\<rparr>]"
    by (simp add: setEntry_def)
  show ?thesis
    using entry_deletion_blanks_value [OF rt f k, of ?dict] e d s by simp
qed

subsection \<open>A bare section key with a value\<close>

lemma sortedConfigKeys_single: "permuting rt \<Longrightarrow> sortedConfigKeys rt site [(k, v)] = [k]"
  by (simp add: sortedConfigKeys_def permuting_range_single permuting_sort_single)

lemma sortedConfigKeys_drv_single: "permuting rt \<Longrightarrow> sortedConfigKeys_drv rt site [(k, v)] = [k]"
  by (simp add: sortedConfigKeys_drv_def permuting_range_single permuting_sort_single)

lemma bare_value_merge:
  assumes "permuting rt" and "p < length cfg" and "v \<noteq> []"
    and "\<forall>e \<in> set (entries (cfg ! p)). key e \<noteq> []"
  shows "updateSections rt cfg [(sectionAddress cfg p, v)] =
     (cfg[p := (cfg ! p)\<lparr>entries := entries (cfg ! p) @ [\<lparr>key = [], val = v\<rparr>]\<rparr>], [])"
proof -
  let ?sk = "sectionAddress cfg p"
  let ?m = "[(?sk, v)]"
  let ?s' = "(cfg ! p)\<lparr>entries := entries (cfg ! p) @ [\<lparr>key = [], val = v\<rparr>]\<rparr>"
  have grp: "\<forall>k \<in> fst ` set ?m. inGroup k (name (cfg ! p)) (repeatIndex cfg p)"
    by (simp add: inGroup_def sectionAddress_def)
  have before: "\<forall>j. 0 \<le> j \<and> j < p \<longrightarrow>
      (\<forall>k \<in> fst ` set ?m. \<not> inGroup k (name (cfg ! j)) (repeatIndex cfg j))"
  proof (intro allI impI)
    fix j assume "0 \<le> j \<and> j < p"
    then have "j < length cfg" "j \<noteq> p" using assms(2) by simp_all
    then show "\<forall>k \<in> fst ` set ?m. \<not> inGroup k (name (cfg ! j)) (repeatIndex cfg j)"
      by (rule other_positions_miss [OF assms(2) _ _ grp])
  qed
  have sk: "?sk = \<lparr>sectionName = name (cfg ! p), index = repeatIndex cfg p, entryKey = []\<rparr>"
    by (simp add: sectionAddress_def)
  have untouched: "\<forall>e \<in> set (entries (cfg ! p)).
      \<lparr>sectionName = sectionName ?sk, index = index ?sk, entryKey = key e\<rparr> \<notin> fst ` set ?m"
    using assms(4) by (simp add: sectionAddress_def)
  have u: "updateEntries (entries (cfg ! p)) ?sk ?m = (entries (cfg ! p), ?m)"
    unfolding updateEntries_def using updateEntries_loop_untouched [OF untouched, of "[]"] by simp
  have a: "appendEntries rt (InSection p) (entries (cfg ! p)) ?sk ?m =
      (entries (cfg ! p) @ [\<lparr>key = [], val = v\<rparr>], [])"
    by (simp add: appendEntries_def sortedConfigKeys_single [OF assms(1)] mapValue_def
        sectionAddress_def)
  have r: "\<lparr>name = name (cfg ! p), comment = comment (cfg ! p),
       entries = entries (cfg ! p) @ [\<lparr>key = [], val = v\<rparr>]\<rparr> = ?s'"
    by simp
  have step: "mergeFrom rt cfg p (take p cfg) ?m = mergeFrom rt cfg (Suc p) (take p cfg @ [?s']) []"
    using assms(3) u a
    by (simp add: mergeFrom_step [OF assms(2)] Let_def sk [symmetric] r)
  have "updateSections rt cfg ?m = mergeFrom rt cfg 0 [] ?m"
    by (rule updateSections_mergeFrom)
  also have "\<dots> = mergeFrom rt cfg p ([] @ take (p - 0) (drop 0 cfg)) ?m"
    by (rule mergeFrom_miss_range [OF assms(1) _ before]) (use assms(2) in simp_all)
  also have "\<dots> = mergeFrom rt cfg p (take p cfg) ?m" by simp
  also have "\<dots> = mergeFrom rt cfg (Suc p) (take p cfg @ [?s']) []" by (rule step)
  also have "\<dots> = ((take p cfg @ [?s']) @ drop (Suc p) cfg, [])"
    by (rule mergeFrom_empty_map [OF assms(1)]) (use assms(2) in simp)
  also have "(take p cfg @ [?s']) @ drop (Suc p) cfg = cfg[p := ?s']"
    using assms(2) by (simp add: upd_conv_take_nth_drop)
  finally show ?thesis .
qed

text \<open>
  C9. The code does not leave the section alone. Let the dictionary hold, among keys that do
  not match the pattern, one override: a non-empty value \<open>v\<close> for the bare address of the
  section at position \<open>p\<close>, which has no entry with the empty key. The section check lets
  the key stay in the map, and the loop over the new entries of that section, which selects
  keys by section name and index only, takes it for a new entry: the section comes out with
  one more entry, of empty key and value \<open>v\<close>. Nothing else changes, nothing panics and no
  section is appended. Both versions.
\<close>

theorem bare_value_appends_entry:
  assumes "permuting rt" and "p < length cfg" and "v \<noteq> []"
    and "\<forall>e \<in> set (entries (cfg ! p)). key e \<noteq> []"
  shows "(extractRawConfigKeys dict = Inr [(sectionAddress cfg p, v)] \<longrightarrow>
           qemuRawCfgOverride rt cfg dict =
             Inr (cfg[p := (cfg ! p)\<lparr>entries := entries (cfg ! p) @ [\<lparr>key = [], val = v\<rparr>]\<rparr>])) \<and>
         (qemuExtractRawConfigKeys dict = Inr [(sectionAddress cfg p, v)] \<longrightarrow>
           qemuRawCfgOverride_drv rt cfg dict =
             Inr (cfg[p := (cfg ! p)\<lparr>entries := entries (cfg ! p) @ [\<lparr>key = [], val = v\<rparr>]\<rparr>]))"
proof -
  have u: "permuting (unsorted rt)" by (rule permuting_unsorted [OF assms(1)])
  show ?thesis
    by (simp add: qemuRawCfgOverride_def qemuRawCfgOverride_drv_def drv_sections_updateSections
        bare_value_merge [OF assms] bare_value_merge [OF u assms(2,3,4)]
        appendSections_Nil [OF assms(1)] sortedConfigKeys_drv_Nil [OF assms(1)]
        permuting_range_Nil [OF assms(1)] permuting_sort_Nil [OF assms(1)])
qed

theorem bare_value_appends_entry_witness:
  "qemuRawCfgOverride runtimeInOrder
     [\<lparr>name = ''global'', comment = [], entries = [\<lparr>key = ''value'', val = ''1''\<rparr>]\<rparr>]
     [(''raw.qemu.config.global'', ''x'')]
   = Inr [\<lparr>name = ''global'', comment = [],
            entries = [\<lparr>key = ''value'', val = ''1''\<rparr>, \<lparr>key = [], val = ''x''\<rparr>]\<rparr>] \<and>
   qemuRawCfgOverride_drv runtimeInOrder
     [\<lparr>name = ''global'', comment = [], entries = [\<lparr>key = ''value'', val = ''1''\<rparr>]\<rparr>]
     [(''raw.qemu.config.global'', ''x'')]
   = Inr [\<lparr>name = ''global'', comment = [],
            entries = [\<lparr>key = ''value'', val = ''1''\<rparr>, \<lparr>key = [], val = ''x''\<rparr>]\<rparr>]"
proof -
  let ?cfg = "[\<lparr>name = ''global'', comment = [], entries = [\<lparr>key = ''value'', val = ''1''\<rparr>]\<rparr>]"
  let ?dict = "[(''raw.qemu.config.global'', ''x'')]"
  have rt: "permuting runtimeInOrder"
    using valid_runtimeInOrder by (simp add: valid_runtime_def)
  have p: "0 < length ?cfg" by simp
  have v: "''x'' \<noteq> []" by simp
  have k: "\<forall>e \<in> set (entries (?cfg ! 0)). key e \<noteq> []" by simp
  have e: "extractRawConfigKeys ?dict = Inr [(sectionAddress ?cfg 0, ''x'')]"
    by code_simp
  have d: "qemuExtractRawConfigKeys ?dict = Inr [(sectionAddress ?cfg 0, ''x'')]"
    by code_simp
  show ?thesis
    using bare_value_appends_entry [OF rt p v k, of ?dict] e d by simp
qed

subsection \<open>Deleting a section\<close>

lemma key_miss:
  assumes "inGroup k (name (cfg ! p)) (repeatIndex cfg p)"
    and "p < length cfg" and "j < length cfg" and "j \<noteq> p"
  shows "\<not> inGroup k (name (cfg ! j)) (repeatIndex cfg j)"
proof
  assume "inGroup k (name (cfg ! j)) (repeatIndex cfg j)"
  with assms(1) have "name (cfg ! j) = name (cfg ! p) \<and> repeatIndex cfg j = repeatIndex cfg p"
    by (auto simp: inGroup_def)
  with group_unique [OF assms(3,2,4)] show False by simp
qed

lemma inGroup_sectionAddress: "inGroup (sectionAddress cfg p) (name (cfg ! p)) (repeatIndex cfg p)"
  by (simp add: inGroup_def sectionAddress_def)

lemma inGroup_entryAddress: "inGroup (entryAddress cfg p q) (name (cfg ! p)) (repeatIndex cfg p)"
  by (simp add: inGroup_def entryAddress_def)

lemma section_deletion_merge:
  assumes "permuting rt" and "p < length cfg"
  shows "updateSections rt cfg [(sectionAddress cfg p, [])] = (dropSection cfg p, [])"
proof -
  let ?A = "sectionAddress cfg p"
  let ?m = "[(?A, [])]"
  have before: "\<forall>j. 0 \<le> j \<and> j < p \<longrightarrow>
      (\<forall>k \<in> fst ` set ?m. \<not> inGroup k (name (cfg ! j)) (repeatIndex cfg j))"
    using assms(2) by (simp add: key_miss [OF inGroup_sectionAddress])
  have "updateSections rt cfg ?m = mergeFrom rt cfg 0 [] ?m"
    by (rule updateSections_mergeFrom)
  also have "\<dots> = mergeFrom rt cfg p ([] @ take (p - 0) (drop 0 cfg)) ?m"
    by (rule mergeFrom_miss_range [OF assms(1) _ before]) (use assms(2) in simp_all)
  also have "\<dots> = mergeFrom rt cfg p (take p cfg) ?m" by simp
  also have "\<dots> = mergeFrom rt cfg (Suc p) (take p cfg) (AList.delete ?A ?m)"
    by (rule mergeFrom_delete [OF assms(2)]) simp
  also have "\<dots> = mergeFrom rt cfg (Suc p) (take p cfg) []" by simp
  also have "\<dots> = (take p cfg @ drop (Suc p) cfg, [])"
    by (rule mergeFrom_empty_map [OF assms(1)]) (use assms(2) in simp)
  finally show ?thesis by (simp add: dropSection_def)
qed

lemma deletion_then_override_merge:
  assumes "permuting rt" and "p < length cfg"
    and "name (cfg ! p2) = name (cfg ! p)" and "repeatIndex cfg p < repeatIndex cfg p2"
    and "firstWithKey cfg p2 q" and "v \<noteq> []"
    and "m = [(sectionAddress cfg p, []), (entryAddress cfg p2 q, v)] \<or>
         m = [(entryAddress cfg p2 q, v), (sectionAddress cfg p, [])]"
  shows "updateSections rt cfg m = (dropSection (setEntry cfg p2 q v) p, [])"
proof -
  let ?A = "sectionAddress cfg p"
  let ?B = "entryAddress cfg p2 q"
  let ?s' = "(cfg ! p2)\<lparr>entries :=
          (entries (cfg ! p2))[q := \<lparr>key = key (entries (cfg ! p2) ! q), val = v\<rparr>]\<rparr>"
  have p2: "p2 < length cfg" using assms(5) by (simp add: firstWithKey_def)
  have lt: "p < p2"
  proof (rule ccontr)
    assume "\<not> p < p2"
    then have "p2 < p \<or> p2 = p" by auto
    then show False
    proof
      assume "p2 < p"
      from repeatIndex_less [OF this assms(2,3)] assms(4) show False by simp
    next
      assume "p2 = p"
      with assms(4) show False by simp
    qed
  qed
  have AB: "?A \<noteq> ?B"
    using assms(4) by (auto simp: sectionAddress_def entryAddress_def)
  have keys: "fst ` set m = {?A, ?B}" using assms(7) by auto
  have lookup: "map_of m ?A = Some []" using assms(7) AB by auto
  have del: "AList.delete ?A m = [(?B, v)]" using assms(7) AB by auto
  have before: "\<forall>j. 0 \<le> j \<and> j < p \<longrightarrow>
      (\<forall>k \<in> fst ` set m. \<not> inGroup k (name (cfg ! j)) (repeatIndex cfg j))"
    using assms(2) p2 lt
    by (simp add: keys key_miss [OF inGroup_sectionAddress] key_miss [OF inGroup_entryAddress])
  have between: "\<forall>j. Suc p \<le> j \<and> j < p2 \<longrightarrow>
      (\<forall>k \<in> fst ` set [(?B, v)]. \<not> inGroup k (name (cfg ! j)) (repeatIndex cfg j))"
    using p2 by (simp add: key_miss [OF inGroup_entryAddress])
  have "updateSections rt cfg m = mergeFrom rt cfg 0 [] m"
    by (rule updateSections_mergeFrom)
  also have "\<dots> = mergeFrom rt cfg p ([] @ take (p - 0) (drop 0 cfg)) m"
    by (rule mergeFrom_miss_range [OF assms(1) _ before]) (use assms(2) in simp_all)
  also have "\<dots> = mergeFrom rt cfg p (take p cfg) m" by simp
  also have "\<dots> = mergeFrom rt cfg (Suc p) (take p cfg) (AList.delete ?A m)"
    by (rule mergeFrom_delete [OF assms(2) lookup])
  also have "\<dots> = mergeFrom rt cfg (Suc p) (take p cfg) [(?B, v)]" by (simp only: del)
  also have "\<dots> = mergeFrom rt cfg p2 (take p cfg @ take (p2 - Suc p) (drop (Suc p) cfg)) [(?B, v)]"
    by (rule mergeFrom_miss_range [OF assms(1) _ between]) (use p2 lt in simp_all)
  also have "\<dots> = mergeFrom rt cfg (Suc p2)
      ((take p cfg @ take (p2 - Suc p) (drop (Suc p) cfg)) @ [?s']) (AList.delete ?B [(?B, v)])"
    by (rule mergeFrom_hit_entry [OF assms(1,5)]) (use assms(6) in simp_all)
  also have "\<dots> = mergeFrom rt cfg (Suc p2)
      ((take p cfg @ take (p2 - Suc p) (drop (Suc p) cfg)) @ [?s']) []" by simp
  also have "\<dots> = (((take p cfg @ take (p2 - Suc p) (drop (Suc p) cfg)) @ [?s']) @ drop (Suc p2) cfg, [])"
    by (rule mergeFrom_empty_map [OF assms(1)]) (use p2 in simp)
  also have "((take p cfg @ take (p2 - Suc p) (drop (Suc p) cfg)) @ [?s']) @ drop (Suc p2) cfg
      = dropSection (setEntry cfg p2 q v) p"
  proof -
    have a: "take p (cfg[p2 := ?s']) = take p cfg" using lt by simp
    have "drop (Suc p) (cfg[p2 := ?s']) = (drop (Suc p) cfg)[p2 - Suc p := ?s']"
      using lt by (simp add: drop_update_swap)
    also have "\<dots> = take (p2 - Suc p) (drop (Suc p) cfg) @ ?s' #
        drop (Suc (p2 - Suc p)) (drop (Suc p) cfg)"
      by (rule upd_conv_take_nth_drop) (use p2 lt in simp)
    also have "drop (Suc (p2 - Suc p)) (drop (Suc p) cfg) = drop (Suc p2) cfg"
      using lt by simp
    finally show ?thesis by (simp add: dropSection_def setEntry_def a)
  qed
  finally show ?thesis .
qed

lemma merge_to_empty_both:
  assumes "permuting rt"
    and "\<And>rt'. permuting rt' \<Longrightarrow> updateSections rt' cfg m = (out, [])"
  shows "(extractRawConfigKeys dict = Inr m \<longrightarrow> m \<noteq> [] \<longrightarrow> qemuRawCfgOverride rt cfg dict = Inr out) \<and>
         (qemuExtractRawConfigKeys dict = Inr m \<longrightarrow> m \<noteq> [] \<longrightarrow> qemuRawCfgOverride_drv rt cfg dict = Inr out)"
proof -
  have u: "permuting (unsorted rt)" by (rule permuting_unsorted [OF assms(1)])
  show ?thesis
    by (simp add: qemuRawCfgOverride_def qemuRawCfgOverride_drv_def drv_sections_updateSections
        assms(2) [OF assms(1)] assms(2) [OF u]
        appendSections_Nil [OF assms(1)] sortedConfigKeys_drv_Nil [OF assms(1)]
        permuting_range_Nil [OF assms(1)] permuting_sort_Nil [OF assms(1)])
qed

text \<open>
  Two small override maps in full. If the map holds one override, the empty string for the
  bare address of the section at \<open>p\<close>, the result is the original list without that
  section. If it holds two, that deletion and a non-empty value for an entry of a later
  section of the same name, the result is the original list with that entry overridden and
  the section at \<open>p\<close> removed. Both versions.
\<close>

lemma section_deletion_small_maps:
  assumes "permuting rt" and "p < length cfg"
  shows "(extractRawConfigKeys dict = Inr [(sectionAddress cfg p, [])] \<longrightarrow>
           qemuRawCfgOverride rt cfg dict = Inr (dropSection cfg p)) \<and>
         (qemuExtractRawConfigKeys dict = Inr [(sectionAddress cfg p, [])] \<longrightarrow>
           qemuRawCfgOverride_drv rt cfg dict = Inr (dropSection cfg p)) \<and>
         (name (cfg ! p2) = name (cfg ! p) \<and> repeatIndex cfg p < repeatIndex cfg p2 \<and>
          firstWithKey cfg p2 q \<and> v \<noteq> [] \<and>
          (m = [(sectionAddress cfg p, []), (entryAddress cfg p2 q, v)] \<or>
           m = [(entryAddress cfg p2 q, v), (sectionAddress cfg p, [])]) \<longrightarrow>
            (extractRawConfigKeys dict2 = Inr m \<longrightarrow>
               qemuRawCfgOverride rt cfg dict2 = Inr (dropSection (setEntry cfg p2 q v) p)) \<and>
            (qemuExtractRawConfigKeys dict2 = Inr m \<longrightarrow>
               qemuRawCfgOverride_drv rt cfg dict2 = Inr (dropSection (setEntry cfg p2 q v) p)))"
proof -
  have one: "\<And>rt'. permuting rt' \<Longrightarrow>
      updateSections rt' cfg [(sectionAddress cfg p, [])] = (dropSection cfg p, [])"
    by (rule section_deletion_merge [OF _ assms(2)])
  have two: "name (cfg ! p2) = name (cfg ! p) \<and> repeatIndex cfg p < repeatIndex cfg p2 \<and>
          firstWithKey cfg p2 q \<and> v \<noteq> [] \<and>
          (m = [(sectionAddress cfg p, []), (entryAddress cfg p2 q, v)] \<or>
           m = [(entryAddress cfg p2 q, v), (sectionAddress cfg p, [])]) \<Longrightarrow>
            (extractRawConfigKeys dict2 = Inr m \<longrightarrow>
               qemuRawCfgOverride rt cfg dict2 = Inr (dropSection (setEntry cfg p2 q v) p)) \<and>
            (qemuExtractRawConfigKeys dict2 = Inr m \<longrightarrow>
               qemuRawCfgOverride_drv rt cfg dict2 = Inr (dropSection (setEntry cfg p2 q v) p))"
  proof -
    assume h: "name (cfg ! p2) = name (cfg ! p) \<and> repeatIndex cfg p < repeatIndex cfg p2 \<and>
          firstWithKey cfg p2 q \<and> v \<noteq> [] \<and>
          (m = [(sectionAddress cfg p, []), (entryAddress cfg p2 q, v)] \<or>
           m = [(entryAddress cfg p2 q, v), (sectionAddress cfg p, [])])"
    then have ne: "m \<noteq> []" by auto
    have "\<And>rt'. permuting rt' \<Longrightarrow>
        updateSections rt' cfg m = (dropSection (setEntry cfg p2 q v) p, [])"
      using h by (intro deletion_then_override_merge [OF _ assms(2)]) simp_all
    from merge_to_empty_both [OF assms(1) this, of dict2] ne show ?thesis by simp
  qed
  show ?thesis
    using merge_to_empty_both [OF assms(1) one, of dict] two by simp
qed

lemma section_deletion_small_maps_example:
  "qemuRawCfgOverride runtimeInOrder
     [\<lparr>name = ''global'', comment = [], entries = [\<lparr>key = ''value'', val = ''1''\<rparr>]\<rparr>,
      \<lparr>name = ''memory'', comment = [], entries = [\<lparr>key = ''size'', val = ''1G''\<rparr>]\<rparr>,
      \<lparr>name = ''global'', comment = [], entries = [\<lparr>key = ''value'', val = ''2''\<rparr>]\<rparr>,
      \<lparr>name = ''global'', comment = [], entries = [\<lparr>key = ''value'', val = ''3''\<rparr>]\<rparr>]
     [(''raw.qemu.config.global[1]'', [])]
   = Inr [\<lparr>name = ''global'', comment = [], entries = [\<lparr>key = ''value'', val = ''1''\<rparr>]\<rparr>,
          \<lparr>name = ''memory'', comment = [], entries = [\<lparr>key = ''size'', val = ''1G''\<rparr>]\<rparr>,
          \<lparr>name = ''global'', comment = [], entries = [\<lparr>key = ''value'', val = ''3''\<rparr>]\<rparr>] \<and>
   qemuRawCfgOverride_drv runtimeInOrder
     [\<lparr>name = ''global'', comment = [], entries = [\<lparr>key = ''value'', val = ''1''\<rparr>]\<rparr>,
      \<lparr>name = ''memory'', comment = [], entries = [\<lparr>key = ''size'', val = ''1G''\<rparr>]\<rparr>,
      \<lparr>name = ''global'', comment = [], entries = [\<lparr>key = ''value'', val = ''2''\<rparr>]\<rparr>,
      \<lparr>name = ''global'', comment = [], entries = [\<lparr>key = ''value'', val = ''3''\<rparr>]\<rparr>]
     [(''raw.qemu.config.global[1]'', [])]
   = Inr [\<lparr>name = ''global'', comment = [], entries = [\<lparr>key = ''value'', val = ''1''\<rparr>]\<rparr>,
          \<lparr>name = ''memory'', comment = [], entries = [\<lparr>key = ''size'', val = ''1G''\<rparr>]\<rparr>,
          \<lparr>name = ''global'', comment = [], entries = [\<lparr>key = ''value'', val = ''3''\<rparr>]\<rparr>] \<and>
   qemuRawCfgOverride runtimeInOrder
     [\<lparr>name = ''global'', comment = [], entries = [\<lparr>key = ''value'', val = ''1''\<rparr>]\<rparr>,
      \<lparr>name = ''memory'', comment = [], entries = [\<lparr>key = ''size'', val = ''1G''\<rparr>]\<rparr>,
      \<lparr>name = ''global'', comment = [], entries = [\<lparr>key = ''value'', val = ''2''\<rparr>]\<rparr>,
      \<lparr>name = ''global'', comment = [], entries = [\<lparr>key = ''value'', val = ''3''\<rparr>]\<rparr>]
     [(''raw.qemu.config.global[2].value'', ''9''), (''raw.qemu.config.global[1]'', [])]
   = Inr [\<lparr>name = ''global'', comment = [], entries = [\<lparr>key = ''value'', val = ''1''\<rparr>]\<rparr>,
          \<lparr>name = ''memory'', comment = [], entries = [\<lparr>key = ''size'', val = ''1G''\<rparr>]\<rparr>,
          \<lparr>name = ''global'', comment = [], entries = [\<lparr>key = ''value'', val = ''9''\<rparr>]\<rparr>] \<and>
   qemuRawCfgOverride_drv runtimeInOrder
     [\<lparr>name = ''global'', comment = [], entries = [\<lparr>key = ''value'', val = ''1''\<rparr>]\<rparr>,
      \<lparr>name = ''memory'', comment = [], entries = [\<lparr>key = ''size'', val = ''1G''\<rparr>]\<rparr>,
      \<lparr>name = ''global'', comment = [], entries = [\<lparr>key = ''value'', val = ''2''\<rparr>]\<rparr>,
      \<lparr>name = ''global'', comment = [], entries = [\<lparr>key = ''value'', val = ''3''\<rparr>]\<rparr>]
     [(''raw.qemu.config.global[2].value'', ''9''), (''raw.qemu.config.global[1]'', [])]
   = Inr [\<lparr>name = ''global'', comment = [], entries = [\<lparr>key = ''value'', val = ''1''\<rparr>]\<rparr>,
          \<lparr>name = ''memory'', comment = [], entries = [\<lparr>key = ''size'', val = ''1G''\<rparr>]\<rparr>,
          \<lparr>name = ''global'', comment = [], entries = [\<lparr>key = ''value'', val = ''9''\<rparr>]\<rparr>]"
proof -
  let ?cfg = "[\<lparr>name = ''global'', comment = [], entries = [\<lparr>key = ''value'', val = ''1''\<rparr>]\<rparr>,
      \<lparr>name = ''memory'', comment = [], entries = [\<lparr>key = ''size'', val = ''1G''\<rparr>]\<rparr>,
      \<lparr>name = ''global'', comment = [], entries = [\<lparr>key = ''value'', val = ''2''\<rparr>]\<rparr>,
      \<lparr>name = ''global'', comment = [], entries = [\<lparr>key = ''value'', val = ''3''\<rparr>]\<rparr>]"
  let ?dict = "[(''raw.qemu.config.global[1]'', [])]"
  let ?dict2 = "[(''raw.qemu.config.global[2].value'', ''9''), (''raw.qemu.config.global[1]'', [])]"
  let ?m = "[(entryAddress ?cfg 3 0, ''9''), (sectionAddress ?cfg 2, [])]"
  have rt: "permuting runtimeInOrder"
    using valid_runtimeInOrder by (simp add: valid_runtime_def)
  have p: "2 < length ?cfg" by simp
  have e: "extractRawConfigKeys ?dict = Inr [(sectionAddress ?cfg 2, [])]" by code_simp
  have d: "qemuExtractRawConfigKeys ?dict = Inr [(sectionAddress ?cfg 2, [])]" by code_simp
  have e2: "extractRawConfigKeys ?dict2 = Inr ?m" by code_simp
  have d2: "qemuExtractRawConfigKeys ?dict2 = Inr ?m" by code_simp
  have h: "name (?cfg ! 3) = name (?cfg ! 2) \<and> repeatIndex ?cfg 2 < repeatIndex ?cfg 3 \<and>
          firstWithKey ?cfg 3 0 \<and> ''9'' \<noteq> [] \<and>
          (?m = [(sectionAddress ?cfg 2, []), (entryAddress ?cfg 3 0, ''9'')] \<or>
           ?m = [(entryAddress ?cfg 3 0, ''9''), (sectionAddress ?cfg 2, [])])"
    by (simp add: repeatIndex_def firstWithKey_def)
  have s1: "dropSection ?cfg 2 =
      [\<lparr>name = ''global'', comment = [], entries = [\<lparr>key = ''value'', val = ''1''\<rparr>]\<rparr>,
       \<lparr>name = ''memory'', comment = [], entries = [\<lparr>key = ''size'', val = ''1G''\<rparr>]\<rparr>,
       \<lparr>name = ''global'', comment = [], entries = [\<lparr>key = ''value'', val = ''3''\<rparr>]\<rparr>]"
    by (simp add: dropSection_def)
  have s2: "dropSection (setEntry ?cfg 3 0 ''9'') 2 =
      [\<lparr>name = ''global'', comment = [], entries = [\<lparr>key = ''value'', val = ''1''\<rparr>]\<rparr>,
       \<lparr>name = ''memory'', comment = [], entries = [\<lparr>key = ''size'', val = ''1G''\<rparr>]\<rparr>,
       \<lparr>name = ''global'', comment = [], entries = [\<lparr>key = ''value'', val = ''9''\<rparr>]\<rparr>]"
    by (simp add: dropSection_def setEntry_def)
  show ?thesis
    using section_deletion_small_maps [OF rt p, of ?dict 3 0 "''9''" ?m ?dict2] e d e2 d2 h s1 s2
    by simp
qed

subsection \<open>Entry overrides for a deleted section\<close>

lemma group_deletion_merge:
  assumes "permuting rt" and "p < length cfg"
    and "map_of m (sectionAddress cfg p) = Some []"
    and "\<forall>K \<in> fst ` set m. inGroup K (name (cfg ! p)) (repeatIndex cfg p)"
  shows "updateSections rt cfg m = (dropSection cfg p, AList.delete (sectionAddress cfg p) m)"
proof -
  let ?A = "sectionAddress cfg p"
  have before: "\<forall>j. 0 \<le> j \<and> j < p \<longrightarrow>
      (\<forall>k \<in> fst ` set m. \<not> inGroup k (name (cfg ! j)) (repeatIndex cfg j))"
  proof (intro allI impI ballI)
    fix j k assume j: "0 \<le> j \<and> j < p" and k: "k \<in> fst ` set m"
    from j assms(2) have "j < length cfg" "j \<noteq> p" by simp_all
    from key_miss [OF bspec [OF assms(4) k] assms(2) this]
    show "\<not> inGroup k (name (cfg ! j)) (repeatIndex cfg j)" .
  qed
  have after: "\<forall>j. Suc p \<le> j \<and> j < length cfg \<longrightarrow>
      (\<forall>k \<in> fst ` set (AList.delete ?A m). \<not> inGroup k (name (cfg ! j)) (repeatIndex cfg j))"
  proof (intro allI impI ballI)
    fix j k assume j: "Suc p \<le> j \<and> j < length cfg" and k: "k \<in> fst ` set (AList.delete ?A m)"
    from k have km: "k \<in> fst ` set m" by (simp add: fst_set_delete)
    from j have "j < length cfg" "j \<noteq> p" by simp_all
    from key_miss [OF bspec [OF assms(4) km] assms(2) this]
    show "\<not> inGroup k (name (cfg ! j)) (repeatIndex cfg j)" .
  qed
  have "updateSections rt cfg m = mergeFrom rt cfg 0 [] m"
    by (rule updateSections_mergeFrom)
  also have "\<dots> = mergeFrom rt cfg p ([] @ take (p - 0) (drop 0 cfg)) m"
    by (rule mergeFrom_miss_range [OF assms(1) _ before]) (use assms(2) in simp_all)
  also have "\<dots> = mergeFrom rt cfg p (take p cfg) m" by simp
  also have "\<dots> = mergeFrom rt cfg (Suc p) (take p cfg) (AList.delete ?A m)"
    by (rule mergeFrom_delete [OF assms(2,3)])
  also have "\<dots> = mergeFrom rt cfg (length cfg)
      (take p cfg @ take (length cfg - Suc p) (drop (Suc p) cfg)) (AList.delete ?A m)"
    by (rule mergeFrom_miss_range [OF assms(1) _ after]) (use assms(2) in simp_all)
  also have "\<dots> = (take p cfg @ drop (Suc p) cfg, AList.delete ?A m)"
    by (simp add: mergeFrom_end)
  finally show ?thesis by (simp add: dropSection_def)
qed

lemma collect_group_step:
  assumes "\<forall>K \<in> set ks. inGroup K S i \<and> entryKey K \<noteq> []"
  shows "appendSections_collect ks m [(\<lparr>sectionName = S, index = i, entryKey = []\<rparr>, sec)] =
     [(\<lparr>sectionName = S, index = i, entryKey = []\<rparr>,
       sec\<lparr>entries := entries sec @ map (\<lambda>K. \<lparr>key = entryKey K, val = mapValue m K\<rparr>) ks\<rparr>)]"
  using assms
proof (induction ks arbitrary: sec)
  case Nil
  show ?case by simp
next
  case (Cons k ks)
  then have k: "sectionName k = S" "index k = i" "entryKey k \<noteq> []"
    and rest: "\<forall>K \<in> set ks. inGroup K S i \<and> entryKey K \<noteq> []"
    by (simp_all add: inGroup_def)
  show ?case
    by (simp add: k Let_def Cons.IH [OF rest])
qed

lemma collect_group:
  assumes "ks \<noteq> []" and "\<forall>K \<in> set ks. inGroup K S i \<and> entryKey K \<noteq> []"
  shows "appendSections_collect ks m [] =
     [(\<lparr>sectionName = S, index = i, entryKey = []\<rparr>,
       \<lparr>name = S, comment = [], entries = map (\<lambda>K. \<lparr>key = entryKey K, val = mapValue m K\<rparr>) ks\<rparr>)]"
proof (cases ks)
  case Nil
  with assms(1) show ?thesis by simp
next
  case (Cons k ks')
  then have k: "sectionName k = S" "index k = i" "entryKey k \<noteq> []"
    and rest: "\<forall>K \<in> set ks'. inGroup K S i \<and> entryKey K \<noteq> []"
    using assms(2) by (simp_all add: inGroup_def)
  show ?thesis
    by (simp add: Cons k Let_def collect_group_step [OF rest])
qed

lemma new_section_of_group:
  assumes "permuting rt" and "ks \<noteq> []" and "\<forall>K \<in> set ks. inGroup K S i \<and> entryKey K \<noteq> []"
  shows "map (sectionValue (appendSections_collect ks m []))
           (sortSlice rt lessSection
              (rangeOrder rt NewSections (map fst (appendSections_collect ks m [])))) =
         [\<lparr>name = S, comment = [],
           entries = map (\<lambda>K. \<lparr>key = entryKey K, val = mapValue m K\<rparr>) ks\<rparr>]"
  by (simp add: collect_group [OF assms(2,3)] permuting_range_single [OF assms(1)]
      permuting_sort_single [OF assms(1)] sectionValue_def)

lemma group_key_empty:
  "inGroup K (name (cfg ! p)) (repeatIndex cfg p) \<Longrightarrow> entryKey K = [] \<Longrightarrow> K = sectionAddress cfg p"
  by (cases K) (simp add: inGroup_def sectionAddress_def)

lemma leftover_group:
  assumes "\<forall>K \<in> fst ` set m. inGroup K (name (cfg ! p)) (repeatIndex cfg p)"
    and "set ks = fst ` set (AList.delete (sectionAddress cfg p) m)"
  shows "\<forall>K \<in> set ks. inGroup K (name (cfg ! p)) (repeatIndex cfg p) \<and> entryKey K \<noteq> []"
proof (intro ballI conjI notI)
  fix K assume "K \<in> set ks"
  then have km: "K \<in> fst ` set m" and ne: "K \<noteq> sectionAddress cfg p"
    by (simp_all add: assms(2) fst_set_delete)
  from bspec [OF assms(1) km] show g: "inGroup K (name (cfg ! p)) (repeatIndex cfg p)" .
  assume "entryKey K = []"
  from group_key_empty [OF g this] ne show False by simp
qed

lemma leftover_values:
  assumes "set ks = fst ` set (AList.delete A m)"
  shows "map (\<lambda>K. \<lparr>key = entryKey K, val = mapValue (AList.delete A m) K\<rparr>) ks =
         map (\<lambda>K. \<lparr>key = entryKey K, val = mapValue m K\<rparr>) ks"
proof (rule map_cong [OF refl])
  fix K assume "K \<in> set ks"
  then have "K \<noteq> A" by (simp add: assms fst_set_delete)
  then show "\<lparr>key = entryKey K, val = mapValue (AList.delete A m) K\<rparr> =
      \<lparr>key = entryKey K, val = mapValue m K\<rparr>"
    by (simp add: mapValue_def)
qed

lemma set_sortedConfigKeys_drv: "permuting rt \<Longrightarrow> set (sortedConfigKeys_drv rt site m) = fst ` set m"
  by (simp add: sortedConfigKeys_drv_def permuting_set_range permuting_set_sort)

text \<open>
  C10. Let the override map (the dictionary's matching keys) hold the empty string for the
  bare address of the section at position \<open>p\<close> and, besides, only entry overrides for the
  same section occurrence, at least one. The merge pass drops the section and removes the
  bare key only: the entry overrides are all still in the map when it ends. The appender
  then makes of them one new section with the name of the deleted one and an empty comment,
  after all the merged sections; its entries are these overrides with their values, in the
  order in which \<^verbatim>\<open>sortedConfigKeys\<close> returns their keys. Both versions.
\<close>

theorem deleted_section_overrides_reappear:
  assumes "permuting rt" and "p < length cfg"
    and "map_of m (sectionAddress cfg p) = Some []"
    and "\<forall>K \<in> fst ` set m. inGroup K (name (cfg ! p)) (repeatIndex cfg p)"
    and "AList.delete (sectionAddress cfg p) m \<noteq> []"
  shows "updateSections rt cfg m = (dropSection cfg p, AList.delete (sectionAddress cfg p) m) \<and>
     (extractRawConfigKeys dict = Inr m \<longrightarrow>
        qemuRawCfgOverride rt cfg dict =
          Inr (dropSection cfg p @
            [\<lparr>name = name (cfg ! p), comment = [],
              entries = map (\<lambda>K. \<lparr>key = entryKey K, val = mapValue m K\<rparr>)
                (sortedConfigKeys rt NewSectionKeys (AList.delete (sectionAddress cfg p) m))\<rparr>])) \<and>
     (qemuExtractRawConfigKeys dict = Inr m \<longrightarrow>
        qemuRawCfgOverride_drv rt cfg dict =
          Inr (dropSection cfg p @
            [\<lparr>name = name (cfg ! p), comment = [],
              entries = map (\<lambda>K. \<lparr>key = entryKey K, val = mapValue m K\<rparr>)
                (sortedConfigKeys_drv rt NewSectionKeys (AList.delete (sectionAddress cfg p) m))\<rparr>])) \<and>
     mset (sortedConfigKeys rt NewSectionKeys (AList.delete (sectionAddress cfg p) m)) =
       mset (map fst (AList.delete (sectionAddress cfg p) m)) \<and>
     mset (sortedConfigKeys_drv rt NewSectionKeys (AList.delete (sectionAddress cfg p) m)) =
       mset (map fst (AList.delete (sectionAddress cfg p) m))"
proof -
  let ?A = "sectionAddress cfg p"
  let ?m' = "AList.delete ?A m"
  let ?ks = "sortedConfigKeys rt NewSectionKeys ?m'"
  let ?kd = "sortedConfigKeys_drv rt NewSectionKeys ?m'"
  have u: "permuting (unsorted rt)" by (rule permuting_unsorted [OF assms(1)])
  have ne: "m \<noteq> []" using assms(3) by auto
  have merge: "updateSections rt cfg m = (dropSection cfg p, ?m')"
    by (rule group_deletion_merge [OF assms(1-4)])
  have merge_drv: "updateSections (unsorted rt) cfg m = (dropSection cfg p, ?m')"
    by (rule group_deletion_merge [OF u assms(2-4)])
  have sks: "set ?ks = fst ` set ?m'" by (rule set_sortedConfigKeys [OF assms(1)])
  have skd: "set ?kd = fst ` set ?m'" by (rule set_sortedConfigKeys_drv [OF assms(1)])
  have nks: "?ks \<noteq> []" using sks assms(5) by (cases ?m') auto
  have nkd: "?kd \<noteq> []" using skd assms(5) by (cases ?m') auto
  have new: "map (sectionValue (appendSections_collect ?ks ?m' []))
           (sortSlice rt lessSection
              (rangeOrder rt NewSections (map fst (appendSections_collect ?ks ?m' [])))) =
         [\<lparr>name = name (cfg ! p), comment = [],
           entries = map (\<lambda>K. \<lparr>key = entryKey K, val = mapValue m K\<rparr>) ?ks\<rparr>]"
    using new_section_of_group [OF assms(1) nks leftover_group [OF assms(4) sks], of ?m']
    by (simp only: leftover_values [OF sks])
  have new_drv: "map (sectionValue (appendSections_collect ?kd ?m' []))
           (sortSlice rt lessSection
              (rangeOrder rt NewSections (map fst (appendSections_collect ?kd ?m' [])))) =
         [\<lparr>name = name (cfg ! p), comment = [],
           entries = map (\<lambda>K. \<lparr>key = entryKey K, val = mapValue m K\<rparr>) ?kd\<rparr>]"
    using new_section_of_group [OF assms(1) nkd leftover_group [OF assms(4) skd], of ?m']
    by (simp only: leftover_values [OF skd])
  have a: "extractRawConfigKeys dict = Inr m \<longrightarrow>
        qemuRawCfgOverride rt cfg dict =
          Inr (dropSection cfg p @
            [\<lparr>name = name (cfg ! p), comment = [],
              entries = map (\<lambda>K. \<lparr>key = entryKey K, val = mapValue m K\<rparr>) ?ks\<rparr>])"
    using ne by (simp add: qemuRawCfgOverride_def merge appendSections_def Let_def new)
  have b: "qemuExtractRawConfigKeys dict = Inr m \<longrightarrow>
        qemuRawCfgOverride_drv rt cfg dict =
          Inr (dropSection cfg p @
            [\<lparr>name = name (cfg ! p), comment = [],
              entries = map (\<lambda>K. \<lparr>key = entryKey K, val = mapValue m K\<rparr>) ?kd\<rparr>])"
    using ne by (simp add: qemuRawCfgOverride_drv_def drv_sections_updateSections merge_drv
        Let_def new_drv)
  have c: "mset ?ks = mset (map fst ?m')"
    using assms(1) by (simp add: sortedConfigKeys_def permuting_def)
  have d: "mset ?kd = mset (map fst ?m')"
    using assms(1) by (simp add: sortedConfigKeys_drv_def permuting_def)
  show ?thesis using merge a b c d by simp
qed

theorem deleted_section_overrides_reappear_witness:
  "qemuRawCfgOverride runtimeInOrder
     [\<lparr>name = ''global'', comment = [], entries = [\<lparr>key = ''value'', val = ''1''\<rparr>]\<rparr>,
      \<lparr>name = ''global'', comment = ''c'', entries = [\<lparr>key = ''a'', val = ''2''\<rparr>]\<rparr>,
      \<lparr>name = ''memory'', comment = [], entries = [\<lparr>key = ''size'', val = ''1G''\<rparr>]\<rparr>]
     [(''raw.qemu.config.global[1]'', []), (''raw.qemu.config.global[1].b'', ''vb''),
      (''raw.qemu.config.global[1].a'', ''va'')]
   = Inr [\<lparr>name = ''global'', comment = [], entries = [\<lparr>key = ''value'', val = ''1''\<rparr>]\<rparr>,
          \<lparr>name = ''memory'', comment = [], entries = [\<lparr>key = ''size'', val = ''1G''\<rparr>]\<rparr>,
          \<lparr>name = ''global'', comment = [],
             entries = [\<lparr>key = ''a'', val = ''va''\<rparr>, \<lparr>key = ''b'', val = ''vb''\<rparr>]\<rparr>] \<and>
   qemuRawCfgOverride_drv runtimeInOrder
     [\<lparr>name = ''global'', comment = [], entries = [\<lparr>key = ''value'', val = ''1''\<rparr>]\<rparr>,
      \<lparr>name = ''global'', comment = ''c'', entries = [\<lparr>key = ''a'', val = ''2''\<rparr>]\<rparr>,
      \<lparr>name = ''memory'', comment = [], entries = [\<lparr>key = ''size'', val = ''1G''\<rparr>]\<rparr>]
     [(''raw.qemu.config.global[1]'', []), (''raw.qemu.config.global[1].b'', ''vb''),
      (''raw.qemu.config.global[1].a'', ''va'')]
   = Inr [\<lparr>name = ''global'', comment = [], entries = [\<lparr>key = ''value'', val = ''1''\<rparr>]\<rparr>,
          \<lparr>name = ''memory'', comment = [], entries = [\<lparr>key = ''size'', val = ''1G''\<rparr>]\<rparr>,
          \<lparr>name = ''global'', comment = [],
             entries = [\<lparr>key = ''a'', val = ''va''\<rparr>, \<lparr>key = ''b'', val = ''vb''\<rparr>]\<rparr>] \<and>
   snd (updateSections runtimeInOrder
     [\<lparr>name = ''global'', comment = [], entries = [\<lparr>key = ''value'', val = ''1''\<rparr>]\<rparr>,
      \<lparr>name = ''global'', comment = ''c'', entries = [\<lparr>key = ''a'', val = ''2''\<rparr>]\<rparr>,
      \<lparr>name = ''memory'', comment = [], entries = [\<lparr>key = ''size'', val = ''1G''\<rparr>]\<rparr>]
     [(\<lparr>sectionName = ''global'', index = 1, entryKey = []\<rparr>, []),
      (\<lparr>sectionName = ''global'', index = 1, entryKey = ''b''\<rparr>, ''vb''),
      (\<lparr>sectionName = ''global'', index = 1, entryKey = ''a''\<rparr>, ''va'')])
   = [(\<lparr>sectionName = ''global'', index = 1, entryKey = ''b''\<rparr>, ''vb''),
      (\<lparr>sectionName = ''global'', index = 1, entryKey = ''a''\<rparr>, ''va'')]"
proof -
  let ?cfg = "[\<lparr>name = ''global'', comment = [], entries = [\<lparr>key = ''value'', val = ''1''\<rparr>]\<rparr>,
      \<lparr>name = ''global'', comment = ''c'', entries = [\<lparr>key = ''a'', val = ''2''\<rparr>]\<rparr>,
      \<lparr>name = ''memory'', comment = [], entries = [\<lparr>key = ''size'', val = ''1G''\<rparr>]\<rparr>]"
  let ?dict = "[(''raw.qemu.config.global[1]'', []), (''raw.qemu.config.global[1].b'', ''vb''),
      (''raw.qemu.config.global[1].a'', ''va'')]"
  let ?m = "[(\<lparr>sectionName = ''global'', index = 1, entryKey = []\<rparr>, []),
      (\<lparr>sectionName = ''global'', index = 1, entryKey = ''b''\<rparr>, ''vb''),
      (\<lparr>sectionName = ''global'', index = 1, entryKey = ''a''\<rparr>, ''va'')]"
  have rt: "permuting runtimeInOrder"
    using valid_runtimeInOrder by (simp add: valid_runtime_def)
  have p: "1 < length ?cfg" by simp
  have l: "map_of ?m (sectionAddress ?cfg 1) = Some []"
    by (simp add: sectionAddress_def repeatIndex_def)
  have g: "\<forall>K \<in> fst ` set ?m. inGroup K (name (?cfg ! 1)) (repeatIndex ?cfg 1)"
    by (simp add: inGroup_def repeatIndex_def)
  have n: "AList.delete (sectionAddress ?cfg 1) ?m \<noteq> []"
    by (simp add: sectionAddress_def repeatIndex_def)
  have e: "extractRawConfigKeys ?dict = Inr ?m" by code_simp
  have d: "qemuExtractRawConfigKeys ?dict = Inr ?m" by code_simp
  have s1: "dropSection ?cfg 1 @
            [\<lparr>name = name (?cfg ! 1), comment = [],
              entries = map (\<lambda>K. \<lparr>key = entryKey K, val = mapValue ?m K\<rparr>)
                (sortedConfigKeys runtimeInOrder NewSectionKeys
                   (AList.delete (sectionAddress ?cfg 1) ?m))\<rparr>] =
      [\<lparr>name = ''global'', comment = [], entries = [\<lparr>key = ''value'', val = ''1''\<rparr>]\<rparr>,
       \<lparr>name = ''memory'', comment = [], entries = [\<lparr>key = ''size'', val = ''1G''\<rparr>]\<rparr>,
       \<lparr>name = ''global'', comment = [],
          entries = [\<lparr>key = ''a'', val = ''va''\<rparr>, \<lparr>key = ''b'', val = ''vb''\<rparr>]\<rparr>]"
    by code_simp
  have s2: "dropSection ?cfg 1 @
            [\<lparr>name = name (?cfg ! 1), comment = [],
              entries = map (\<lambda>K. \<lparr>key = entryKey K, val = mapValue ?m K\<rparr>)
                (sortedConfigKeys_drv runtimeInOrder NewSectionKeys
                   (AList.delete (sectionAddress ?cfg 1) ?m))\<rparr>] =
      [\<lparr>name = ''global'', comment = [], entries = [\<lparr>key = ''value'', val = ''1''\<rparr>]\<rparr>,
       \<lparr>name = ''memory'', comment = [], entries = [\<lparr>key = ''size'', val = ''1G''\<rparr>]\<rparr>,
       \<lparr>name = ''global'', comment = [],
          entries = [\<lparr>key = ''a'', val = ''va''\<rparr>, \<lparr>key = ''b'', val = ''vb''\<rparr>]\<rparr>]"
    by code_simp
  have s3: "AList.delete (sectionAddress ?cfg 1) ?m =
     [(\<lparr>sectionName = ''global'', index = 1, entryKey = ''b''\<rparr>, ''vb''),
      (\<lparr>sectionName = ''global'', index = 1, entryKey = ''a''\<rparr>, ''va'')]"
    by (simp add: sectionAddress_def repeatIndex_def)
  note th = deleted_section_overrides_reappear [OF rt p l g n, of ?dict]
  show ?thesis
    using th [unfolded s1 s2, unfolded s3] e d by simp
qed

subsection \<open>The order of new entries and determinism\<close>

lemma insertLeft_no_inversion:
  assumes "sorted_wrt (\<lambda>y e. \<not> below e y) ys"
  shows "sorted_wrt (\<lambda>y e. \<not> below e y) (insertLeft lessConfigKey x ys)"
  using assms
proof (induction ys rule: rev_induct)
  case Nil
  show ?case by (subst insertLeft.simps) simp
next
  case (snoc z zs)
  from snoc.prems have zs: "sorted_wrt (\<lambda>y e. \<not> below e y) zs"
    and zlast: "\<forall>y \<in> set zs. \<not> below z y"
    by (simp_all add: sorted_wrt_append)
  show ?case
  proof (cases "lessConfigKey x z")
    case True
    have set: "set (insertLeft lessConfigKey x zs) = insert x (set zs)"
      using mset_insertLeft [of lessConfigKey x zs] by (metis set_mset_add_mset_insert set_mset_mset)
    have "\<not> below z x" using True by (auto simp: below_def lessConfigKey_def)
    then show ?thesis
      using True snoc.IH [OF zs] zlast
      by (subst insertLeft.simps) (simp add: sorted_wrt_append set)
  next
    case False
    then have le: "sectionName z \<le> sectionName x" "index z \<le> index x" "entryKey z \<le> entryKey x"
      by (simp_all add: lessConfigKey_def not_less)
    have "\<not> entryKey x < entryKey z" using le(3) by (rule leD)
    then have "\<not> below x z" by (simp add: below_def)
    moreover have "\<forall>y \<in> set zs. \<not> below x y"
    proof (intro ballI notI)
      fix y assume y: "y \<in> set zs" and b: "below x y"
      from b le have "below z y" by (auto simp: below_def)
      with zlast y show False by blast
    qed
    ultimately show ?thesis
      using False snoc.prems
      by (subst insertLeft.simps) (simp add: sorted_wrt_append)
  qed
qed

lemma insertionSort_no_inversion:
  "sorted_wrt (\<lambda>y e. \<not> below e y) (insertionSort lessConfigKey ks)"
proof -
  have "sorted_wrt (\<lambda>y e. \<not> below e y) acc \<Longrightarrow>
      sorted_wrt (\<lambda>y e. \<not> below e y) (foldl (\<lambda>done x. insertLeft lessConfigKey x done) acc ks)" for acc
    by (induction ks arbitrary: acc) (simp_all add: insertLeft_no_inversion)
  from this [of "[]"] show ?thesis by (simp add: insertionSort_def)
qed

lemma group_keys_ascending:
  "sorted (map entryKey (filter (\<lambda>K. inGroup K S i) (insertionSort lessConfigKey ks)))"
proof -
  let ?g = "filter (\<lambda>K. inGroup K S i) (insertionSort lessConfigKey ks)"
  have "sorted_wrt (\<lambda>y e. \<not> below e y) ?g"
    by (rule sorted_wrt_filter [OF insertionSort_no_inversion])
  then have "sorted_wrt (\<lambda>y e. entryKey y \<le> entryKey e) ?g"
  proof (rule sorted_wrt_mono_rel [rotated])
    fix y e assume "y \<in> set ?g" "e \<in> set ?g" "\<not> below e y"
    then show "entryKey y \<le> entryKey e" by (auto simp: below_def inGroup_def not_less)
  qed
  then show ?thesis by (simp add: sorted_map)
qed

lemma appendEntries_loop_appends:
  assumes "distinct ks"
  shows "fst (appendEntries_loop ks sk es m) =
     es @ map (\<lambda>K. \<lparr>key = entryKey K, val = mapValue m K\<rparr>)
            (filter (\<lambda>K. inGroup K (sectionName sk) (index sk)) ks)"
  using assms
proof (induction ks arbitrary: es m)
  case Nil
  show ?case by simp
next
  case (Cons k ks)
  then have d: "distinct ks" and n: "k \<notin> set ks" by simp_all
  show ?case
  proof (cases "inGroup k (sectionName sk) (index sk)")
    case False
    then show ?thesis using Cons.IH [OF d] by (simp add: inGroup_def)
  next
    case True
    have "map (\<lambda>K. \<lparr>key = entryKey K, val = mapValue (AList.delete k m) K\<rparr>)
            (filter (\<lambda>K. inGroup K (sectionName sk) (index sk)) ks) =
          map (\<lambda>K. \<lparr>key = entryKey K, val = mapValue m K\<rparr>)
            (filter (\<lambda>K. inGroup K (sectionName sk) (index sk)) ks)"
    proof (intro map_cong refl)
      fix K assume "K \<in> set (filter (\<lambda>K. inGroup K (sectionName sk) (index sk)) ks)"
      then have "K \<noteq> k" using n by auto
      then show "\<lparr>key = entryKey K, val = mapValue (AList.delete k m) K\<rparr> =
          \<lparr>key = entryKey K, val = mapValue m K\<rparr>"
        by (simp add: mapValue_def)
    qed
    then show ?thesis using True Cons.IH [OF d, of _ "AList.delete k m"] by (simp add: inGroup_def)
  qed
qed

text \<open>
  The refactored version on a short override map (where \<^verbatim>\<open>sort.Slice\<close> is the insertion
  sort): although the comparator of \<^verbatim>\<open>sortedConfigKeys\<close> is not an order, the keys of one
  section occurrence come out of the sort in ascending order of entry key, and
  \<^verbatim>\<open>appendEntries\<close> appends them in that order after the entries it was given.
\<close>

lemma appendEntries_ascending_short:
  assumes "valid_runtime rt" and "distinct (map fst m)" and "length m \<le> 6"
  shows "fst (appendEntries rt site es sk m) =
     es @ map (\<lambda>K. \<lparr>key = entryKey K, val = mapValue m K\<rparr>)
            (filter (\<lambda>K. inGroup K (sectionName sk) (index sk)) (sortedConfigKeys rt site m)) \<and>
     sorted (map entryKey
       (filter (\<lambda>K. inGroup K (sectionName sk) (index sk)) (sortedConfigKeys rt site m)))"
proof -
  have perm: "permuting rt" using assms(1) by (simp add: valid_runtime_def)
  let ?r = "rangeOrder rt site (map fst m)"
  have mr: "mset ?r = mset (map fst m)" using perm by (simp add: permuting_def)
  then have "length ?r = length (map fst m)" by (rule mset_eq_length)
  then have "length ?r \<le> 6" using assms(3) by simp
  then have s: "sortedConfigKeys rt site m = insertionSort lessConfigKey ?r"
    using assms(1) by (simp add: sortedConfigKeys_def valid_runtime_def)
  have "mset (sortedConfigKeys rt site m) = mset (map fst m)"
    by (simp add: s mset_insertionSort mr)
  then have d: "distinct (sortedConfigKeys rt site m)"
    using assms(2) by (metis mset_eq_imp_distinct_iff)
  have "fst (appendEntries rt site es sk m) =
     es @ map (\<lambda>K. \<lparr>key = entryKey K, val = mapValue m K\<rparr>)
            (filter (\<lambda>K. inGroup K (sectionName sk) (index sk)) (sortedConfigKeys rt site m))"
    unfolding appendEntries_def by (rule appendEntries_loop_appends [OF d])
  moreover have "sorted (map entryKey
       (filter (\<lambda>K. inGroup K (sectionName sk) (index sk)) (sortedConfigKeys rt site m)))"
    unfolding s by (rule group_keys_ascending)
  ultimately show ?thesis by simp
qed


text \<open>
  C4. In the monolithic version the new entries of an existing section are appended in the
  order in which the \<^verbatim>\<open>range\<close> over the map yields them, without any sort: with the keys
  \<^verbatim>\<open>raw.qemu.config.global.b\<close> and \<^verbatim>\<open>raw.qemu.config.global.a\<close> on a list with one empty
  section \<^verbatim>\<open>global\<close>, a run whose \<^verbatim>\<open>range\<close> yields \<open>b\<close> first gives the entries \<open>b\<close>, \<open>a\<close>.
  The refactored version, which sorts the keys first, gives \<open>a\<close>, \<open>b\<close> on the same run.
\<close>

theorem new_entries_in_range_order:
  "qemuRawCfgOverride_drv runtimeInOrder
     [\<lparr>name = ''global'', comment = [], entries = []\<rparr>]
     [(''raw.qemu.config.global.b'', ''1''), (''raw.qemu.config.global.a'', ''2'')]
   = Inr [\<lparr>name = ''global'', comment = [],
            entries = [\<lparr>key = ''b'', val = ''1''\<rparr>, \<lparr>key = ''a'', val = ''2''\<rparr>]\<rparr>] \<and>
   qemuRawCfgOverride runtimeInOrder
     [\<lparr>name = ''global'', comment = [], entries = []\<rparr>]
     [(''raw.qemu.config.global.b'', ''1''), (''raw.qemu.config.global.a'', ''2'')]
   = Inr [\<lparr>name = ''global'', comment = [],
            entries = [\<lparr>key = ''a'', val = ''2''\<rparr>, \<lparr>key = ''b'', val = ''1''\<rparr>]\<rparr>]"
  by code_simp

text \<open>
  C5. The output is not a function of the two inputs alone. In the monolithic version, the
  same dictionary enumerated in two orders gives the new entries of a section in two
  orders. In the refactored version, the same list and dictionary give the two new
  sections in one order on one run and in the other order on another, depending on the
  order in which the map of new sections is visited, and on a run of the second kind the
  order of enumeration of the dictionary changes the output as well. No two keys of these
  dictionaries have the same address.
\<close>

theorem output_depends_on_iteration_order:
  "qemuRawCfgOverride_drv runtimeInOrder
     [\<lparr>name = ''global'', comment = [], entries = []\<rparr>]
     [(''raw.qemu.config.global.b'', ''1''), (''raw.qemu.config.global.a'', ''2'')]
   \<noteq> qemuRawCfgOverride_drv runtimeInOrder
     [\<lparr>name = ''global'', comment = [], entries = []\<rparr>]
     [(''raw.qemu.config.global.a'', ''2''), (''raw.qemu.config.global.b'', ''1'')] \<and>
   qemuRawCfgOverride runtimeInOrder []
     [(''raw.qemu.config.a[5].k'', ''1''), (''raw.qemu.config.b[1].k'', ''2'')]
   \<noteq> qemuRawCfgOverride runtimeMixed []
     [(''raw.qemu.config.a[5].k'', ''1''), (''raw.qemu.config.b[1].k'', ''2'')] \<and>
   qemuRawCfgOverride runtimeMixed []
     [(''raw.qemu.config.a[5].k'', ''1''), (''raw.qemu.config.b[1].k'', ''2'')]
   \<noteq> qemuRawCfgOverride runtimeMixed []
     [(''raw.qemu.config.b[1].k'', ''2''), (''raw.qemu.config.a[5].k'', ''1'')]"
  by code_simp

subsection \<open>Bracketed indices and new sections\<close>



















subsection \<open>Deleting a section, whatever else the dictionary holds\<close>

lemma map_of_filter_fst:
  "map_of (filter (\<lambda>kv. Q (fst kv)) m) K = (if Q K then map_of m K else None)"
  by (induction m) auto

lemma delete_as_filter: "AList.delete k m = filter (\<lambda>kv. fst kv \<noteq> k) m"
  by (induction m) auto

lemma updateEntries_loop_snd:
  "snd (updateEntries_loop es sk rv mc) =
     filter (\<lambda>kv. \<not> (inGroup (fst kv) (sectionName sk) (index sk) \<and>
                      entryKey (fst kv) \<in> key ` set es)) mc"
proof (induction es arbitrary: rv mc)
  case Nil
  show ?case by simp
next
  case (Cons e es)
  let ?ek = "\<lparr>sectionName = sectionName sk, index = index sk, entryKey = key e\<rparr>"
  have eq: "\<And>K. K = ?ek \<longleftrightarrow> inGroup K (sectionName sk) (index sk) \<and> entryKey K = key e"
    by (auto simp: inGroup_def)
  show ?case
  proof (cases "map_of mc ?ek")
    case (Some v)
    have "snd (updateEntries_loop (e # es) sk rv mc) =
        filter (\<lambda>kv. \<not> (inGroup (fst kv) (sectionName sk) (index sk) \<and>
                      entryKey (fst kv) \<in> key ` set es)) (AList.delete ?ek mc)"
      using Some by (simp add: Let_def Cons.IH)
    also have "\<dots> = filter (\<lambda>kv. \<not> (inGroup (fst kv) (sectionName sk) (index sk) \<and>
                      entryKey (fst kv) \<in> key ` set (e # es))) mc"
      unfolding delete_as_filter filter_filter
      by (rule filter_cong [OF refl]) (auto simp: eq)
    finally show ?thesis .
  next
    case None
    then have notin: "?ek \<notin> fst ` set mc" by (simp add: map_of_eq_None_iff)
    have "snd (updateEntries_loop (e # es) sk rv mc) =
        filter (\<lambda>kv. \<not> (inGroup (fst kv) (sectionName sk) (index sk) \<and>
                      entryKey (fst kv) \<in> key ` set es)) mc"
      using None by (simp add: Let_def Cons.IH)
    also have "\<dots> = filter (\<lambda>kv. \<not> (inGroup (fst kv) (sectionName sk) (index sk) \<and>
                      entryKey (fst kv) \<in> key ` set (e # es))) mc"
    proof (rule filter_cong [OF refl])
      fix kv assume kv: "kv \<in> set mc"
      then have "fst kv \<noteq> ?ek" using notin by force
      then have "\<not> (inGroup (fst kv) (sectionName sk) (index sk) \<and> entryKey (fst kv) = key e)"
        by (simp add: eq)
      then show "(\<not> (inGroup (fst kv) (sectionName sk) (index sk) \<and>
                      entryKey (fst kv) \<in> key ` set es)) =
          (\<not> (inGroup (fst kv) (sectionName sk) (index sk) \<and>
                      entryKey (fst kv) \<in> key ` set (e # es)))"
        by auto
    qed
    finally show ?thesis .
  qed
qed

lemma updateEntries_loop_fst:
  assumes "\<forall>k. map_of mc \<lparr>sectionName = sectionName sk, index = index sk, entryKey = k\<rparr> =
      (if k \<in> set seen then None
       else map_of m0 \<lparr>sectionName = sectionName sk, index = index sk, entryKey = k\<rparr>)"
  shows "fst (updateEntries_loop es sk rv mc) =
     rv @ overrideEntries m0 (sectionName sk) (index sk) seen es"
  using assms
proof (induction es arbitrary: rv mc seen)
  case Nil
  show ?case by simp
next
  case (Cons e es)
  let ?ek = "\<lparr>sectionName = sectionName sk, index = index sk, entryKey = key e\<rparr>"
  show ?case
  proof (cases "map_of mc ?ek")
    case None
    have inv: "\<forall>k. map_of mc \<lparr>sectionName = sectionName sk, index = index sk, entryKey = k\<rparr> =
      (if k \<in> set (key e # seen) then None
       else map_of m0 \<lparr>sectionName = sectionName sk, index = index sk, entryKey = k\<rparr>)"
      using Cons.prems None by auto
    have same: "(if key e \<in> set seen then e
      else (case map_of m0 ?ek of Some v \<Rightarrow> \<lparr>key = key e, val = v\<rparr> | None \<Rightarrow> e)) = e"
      using Cons.prems None by (auto split: option.splits)
    show ?thesis
      using None Cons.IH [OF inv] by (simp add: Let_def same cfgEntry_eta)
  next
    case (Some v)
    then have ns: "key e \<notin> set seen" and m0: "map_of m0 ?ek = Some v"
      using Cons.prems by (auto split: if_splits)
    have inv: "\<forall>k. map_of (AList.delete ?ek mc)
          \<lparr>sectionName = sectionName sk, index = index sk, entryKey = k\<rparr> =
      (if k \<in> set (key e # seen) then None
       else map_of m0 \<lparr>sectionName = sectionName sk, index = index sk, entryKey = k\<rparr>)"
      using Cons.prems by (auto simp: AList.delete_conv')
    show ?thesis
      using Some Cons.IH [OF inv] ns m0 by (simp add: Let_def)
  qed
qed

lemma length_overrideEntries: "length (overrideEntries m S i seen es) = length es"
  by (induction es arbitrary: seen) simp_all

lemma appendEntries_loop_snd:
  "snd (appendEntries_loop ks sk es m1) =
     filter (\<lambda>kv. \<not> (inGroup (fst kv) (sectionName sk) (index sk) \<and> fst kv \<in> set ks)) m1"
proof (induction ks arbitrary: es m1)
  case Nil
  show ?case by simp
next
  case (Cons k ks)
  show ?case
  proof (cases "inGroup k (sectionName sk) (index sk)")
    case False
    have "filter (\<lambda>kv. \<not> (inGroup (fst kv) (sectionName sk) (index sk) \<and> fst kv \<in> set ks)) m1 =
        filter (\<lambda>kv. \<not> (inGroup (fst kv) (sectionName sk) (index sk) \<and> fst kv \<in> set (k # ks))) m1"
      using False by (intro filter_cong refl) auto
    then show ?thesis using False Cons.IH by (simp add: inGroup_def)
  next
    case True
    have "filter (\<lambda>kv. \<not> (inGroup (fst kv) (sectionName sk) (index sk) \<and> fst kv \<in> set ks))
          (AList.delete k m1) =
        filter (\<lambda>kv. \<not> (inGroup (fst kv) (sectionName sk) (index sk) \<and> fst kv \<in> set (k # ks))) m1"
      unfolding delete_as_filter filter_filter
      using True by (intro filter_cong refl) auto
    then show ?thesis using True Cons.IH by (simp add: inGroup_def)
  qed
qed


lemma mapValue_distinct:
  "distinct (map fst m) \<Longrightarrow> kv \<in> set m \<Longrightarrow> mapValue m (fst kv) = snd kv"
  by (cases kv) (simp add: mapValue_def)

lemma new_entries_mset:
  assumes "distinct (map fst m1)" and "mset ks = mset (map fst m1)"
  shows "mset (map (\<lambda>K. \<lparr>key = entryKey K, val = mapValue m1 K\<rparr>) (filter P ks)) =
         mset (map (\<lambda>kv. \<lparr>key = entryKey (fst kv), val = snd kv\<rparr>) (filter (\<lambda>kv. P (fst kv)) m1))"
proof -
  have "mset (map (\<lambda>K. \<lparr>key = entryKey K, val = mapValue m1 K\<rparr>) (filter P ks)) =
      image_mset (\<lambda>K. \<lparr>key = entryKey K, val = mapValue m1 K\<rparr>) (filter_mset P (mset ks))"
    by simp
  also have "\<dots> = mset (map (\<lambda>K. \<lparr>key = entryKey K, val = mapValue m1 K\<rparr>)
      (filter P (map fst m1)))"
    by (simp add: assms(2))
  also have "map (\<lambda>K. \<lparr>key = entryKey K, val = mapValue m1 K\<rparr>) (filter P (map fst m1)) =
      map (\<lambda>kv. \<lparr>key = entryKey (fst kv), val = mapValue m1 (fst kv)\<rparr>)
        (filter (\<lambda>kv. P (fst kv)) m1)"
    by (simp add: filter_map comp_def)
  also have "\<dots> = map (\<lambda>kv. \<lparr>key = entryKey (fst kv), val = snd kv\<rparr>)
        (filter (\<lambda>kv. P (fst kv)) m1)"
    by (rule map_cong [OF refl]) (simp add: mapValue_distinct [OF assms(1)])
  finally show ?thesis .
qed

lemma section_step:
  assumes "permuting rt" and "distinct (map fst mc)"
    and "updateEntries es sk mc = (es1, m1)" and "appendEntries rt site es1 sk m1 = (es2, m2)"
  shows "m2 = filter (\<lambda>kv. \<not> inGroup (fst kv) (sectionName sk) (index sk)) mc"
    and "take (length es1) es2 = es1"
    and "mset (drop (length es1) es2) =
         mset (map (\<lambda>kv. \<lparr>key = entryKey (fst kv), val = snd kv\<rparr>)
           (filter (\<lambda>kv. inGroup (fst kv) (sectionName sk) (index sk) \<and>
                         entryKey (fst kv) \<notin> key ` set es) mc))"
proof -
  let ?G = "\<lambda>K. inGroup K (sectionName sk) (index sk)"
  let ?ks = "sortedConfigKeys rt site m1"
  have m1: "m1 = filter (\<lambda>kv. \<not> (?G (fst kv) \<and> entryKey (fst kv) \<in> key ` set es)) mc"
    using assms(3) updateEntries_loop_snd [of es sk "[]" mc] by (simp add: updateEntries_def)
  have d1: "distinct (map fst m1)"
    unfolding m1 by (rule distinct_map_filter [OF assms(2)])
  have ms: "mset ?ks = mset (map fst m1)"
    using assms(1) by (simp add: sortedConfigKeys_def permuting_def)
  then have dk: "distinct ?ks" using d1 by (metis mset_eq_imp_distinct_iff)
  have sk: "set ?ks = fst ` set m1" by (rule set_sortedConfigKeys [OF assms(1)])
  have es2: "es2 = es1 @ map (\<lambda>K. \<lparr>key = entryKey K, val = mapValue m1 K\<rparr>) (filter ?G ?ks)"
    using assms(4) appendEntries_loop_appends [OF dk, of sk es1 m1] by (simp add: appendEntries_def)
  have "m2 = filter (\<lambda>kv. \<not> (?G (fst kv) \<and> fst kv \<in> set ?ks)) m1"
    using assms(4) appendEntries_loop_snd [of ?ks sk es1 m1] by (simp add: appendEntries_def)
  also have "\<dots> = filter (\<lambda>kv. \<not> ?G (fst kv)) m1"
    by (rule filter_cong [OF refl]) (simp add: sk)
  also have "\<dots> = filter (\<lambda>kv. \<not> ?G (fst kv)) mc"
    unfolding m1 filter_filter by (rule filter_cong [OF refl]) auto
  finally show "m2 = filter (\<lambda>kv. \<not> ?G (fst kv)) mc" .
  show "take (length es1) es2 = es1" by (simp add: es2)
  have "mset (drop (length es1) es2) =
      mset (map (\<lambda>K. \<lparr>key = entryKey K, val = mapValue m1 K\<rparr>) (filter ?G ?ks))"
    by (simp add: es2)
  also have "\<dots> = mset (map (\<lambda>kv. \<lparr>key = entryKey (fst kv), val = snd kv\<rparr>)
      (filter (\<lambda>kv. ?G (fst kv)) m1))"
    by (rule new_entries_mset [OF d1 ms])
  also have "filter (\<lambda>kv. ?G (fst kv)) m1 =
      filter (\<lambda>kv. ?G (fst kv) \<and> entryKey (fst kv) \<notin> key ` set es) mc"
    unfolding m1 filter_filter by (rule filter_cong [OF refl]) auto
  finally show "mset (drop (length es1) es2) =
         mset (map (\<lambda>kv. \<lparr>key = entryKey (fst kv), val = snd kv\<rparr>)
           (filter (\<lambda>kv. ?G (fst kv) \<and> entryKey (fst kv) \<notin> key ` set es) mc))" .
qed


lemma remainingAt_0: "remainingAt m cfg 0 = m"
  by (simp add: remainingAt_def)

lemma remainingAt_Suc:
  "remainingAt m cfg (Suc pos) =
     filter (\<lambda>kv. \<not> consumedAt m cfg pos (fst kv)) (remainingAt m cfg pos)"
  unfolding remainingAt_def filter_filter
  by (rule filter_cong [OF refl]) auto

lemma consumedAt_inGroup:
  "consumedAt m cfg j K \<Longrightarrow> inGroup K (name (cfg ! j)) (repeatIndex cfg j)"
  by (auto simp: consumedAt_def inGroup_sectionAddress split: if_splits)

lemma not_consumed_before:
  assumes "inGroup K (name (cfg ! p)) (repeatIndex cfg p)" and "pos \<le> p" and "p < length cfg"
  shows "\<not> list_ex (\<lambda>j. consumedAt m cfg j K) [0..<pos]"
proof
  assume "list_ex (\<lambda>j. consumedAt m cfg j K) [0..<pos]"
  then obtain j where j: "j < pos" and c: "consumedAt m cfg j K"
    by (auto simp: list_ex_iff)
  from j assms(2,3) have "j < length cfg" "j \<noteq> p" by simp_all
  from key_miss [OF assms(1,3) this] consumedAt_inGroup [OF c] show False by simp
qed

lemma remainingAt_group:
  assumes "pos \<le> p" and "p < length cfg"
  shows "filter (\<lambda>kv. inGroup (fst kv) (name (cfg ! p)) (repeatIndex cfg p) \<and> R kv)
           (remainingAt m cfg pos) =
         filter (\<lambda>kv. inGroup (fst kv) (name (cfg ! p)) (repeatIndex cfg p) \<and> R kv) m"
  unfolding remainingAt_def filter_filter
  by (rule filter_cong [OF refl]) (auto dest: not_consumed_before [OF _ assms])

lemma remainingAt_lookup:
  assumes "inGroup K (name (cfg ! p)) (repeatIndex cfg p)" and "pos \<le> p" and "p < length cfg"
  shows "map_of (remainingAt m cfg pos) K = map_of m K"
  unfolding remainingAt_def
  by (simp add: map_of_filter_fst [of "\<lambda>K. \<not> list_ex (\<lambda>j. consumedAt m cfg j K) [0..<pos]"]
      not_consumed_before [OF assms])

lemma distinct_remainingAt: "distinct (map fst m) \<Longrightarrow> distinct (map fst (remainingAt m cfg pos))"
  unfolding remainingAt_def by (rule distinct_map_filter)

lemma merge_by_original_address:
  assumes "permuting rt" and "distinct (map fst m)"
  shows "pos \<le> length cfg \<Longrightarrow>
     \<exists>out. mergeFrom rt cfg pos acc (remainingAt m cfg pos) =
              (acc @ out, remainingAt m cfg (length cfg)) \<and>
           list_all2 (appliedAt m cfg) (filter (\<lambda>j. \<not> deletedAt m cfg j) [pos..<length cfg]) out"
proof (induction "length cfg - pos" arbitrary: pos acc)
  case 0
  then have "pos = length cfg" by simp
  then show ?case by (simp add: mergeFrom_end)
next
  case (Suc n)
  then have lt: "pos < length cfg" and n: "n = length cfg - Suc pos" and le: "Suc pos \<le> length cfg"
    by simp_all
  let ?mc = "remainingAt m cfg pos"
  let ?A = "sectionAddress cfg pos"
  let ?S = "name (cfg ! pos)" and ?i = "repeatIndex cfg pos"
  have upt: "[pos..<length cfg] = pos # [Suc pos..<length cfg]"
    using lt by (simp add: upt_conv_Cons)
  have A: "?A = \<lparr>sectionName = ?S, index = ?i, entryKey = []\<rparr>"
    by (simp add: sectionAddress_def)
  have lookA: "map_of ?mc ?A = map_of m ?A"
    by (rule remainingAt_lookup [OF inGroup_sectionAddress order_refl lt])
  show ?case
  proof (cases "deletedAt m cfg pos")
    case True
    then have del: "map_of ?mc ?A = Some []" by (simp add: lookA deletedAt_def)
    have next_map: "AList.delete ?A ?mc = remainingAt m cfg (Suc pos)"
      unfolding remainingAt_Suc delete_as_filter
      using True by (simp add: consumedAt_def)
    have "mergeFrom rt cfg pos acc ?mc = mergeFrom rt cfg (Suc pos) acc (remainingAt m cfg (Suc pos))"
      using mergeFrom_delete [OF lt del] by (simp add: next_map)
    moreover from Suc.hyps(1) [OF n le, of acc] obtain out where
      "mergeFrom rt cfg (Suc pos) acc (remainingAt m cfg (Suc pos)) =
         (acc @ out, remainingAt m cfg (length cfg))"
      "list_all2 (appliedAt m cfg) (filter (\<lambda>j. \<not> deletedAt m cfg j) [Suc pos..<length cfg]) out"
      by blast
    ultimately show ?thesis using True by (auto simp: upt)
  next
    case False
    then have nodel: "map_of ?mc ?A \<noteq> Some []" by (simp add: lookA deletedAt_def)
    obtain es1 m1 where u: "updateEntries (entries (cfg ! pos)) ?A ?mc = (es1, m1)"
      by (cases "updateEntries (entries (cfg ! pos)) ?A ?mc") auto
    obtain es2 m2 where a: "appendEntries rt (InSection pos) es1 ?A m1 = (es2, m2)"
      by (cases "appendEntries rt (InSection pos) es1 ?A m1") auto
    let ?s' = "\<lparr>name = ?S, comment = comment (cfg ! pos), entries = es2\<rparr>"
    note step = section_step [OF assms(1) distinct_remainingAt [OF assms(2)] u a]
    have m2: "m2 = remainingAt m cfg (Suc pos)"
      unfolding remainingAt_Suc using step(1) False
      by (simp add: consumedAt_def sectionAddress_def)
    have inv: "\<forall>k. map_of ?mc \<lparr>sectionName = sectionName ?A, index = index ?A, entryKey = k\<rparr> =
        (if k \<in> set [] then None
         else map_of m \<lparr>sectionName = sectionName ?A, index = index ?A, entryKey = k\<rparr>)"
      by (simp add: sectionAddress_def remainingAt_lookup [OF _ order_refl lt] inGroup_def)
    have es1: "es1 = overrideEntries m ?S ?i [] (entries (cfg ! pos))"
      using u updateEntries_loop_fst [OF inv, of "entries (cfg ! pos)" "[]"]
      by (simp add: updateEntries_def sectionAddress_def)
    have len: "length es1 = length (entries (cfg ! pos))"
      by (simp add: es1 length_overrideEntries)
    have new: "mset (drop (length (entries (cfg ! pos))) es2) =
         mset (map (\<lambda>kv. \<lparr>key = entryKey (fst kv), val = snd kv\<rparr>)
           (filter (\<lambda>kv. inGroup (fst kv) ?S ?i \<and>
                         entryKey (fst kv) \<notin> key ` set (entries (cfg ! pos))) m))"
      using step(3) remainingAt_group [OF order_refl lt,
          where R = "\<lambda>kv. entryKey (fst kv) \<notin> key ` set (entries (cfg ! pos))" and m = m]
      by (simp add: len sectionAddress_def)
    have applied: "appliedAt m cfg pos ?s'"
      using step(2) new by (simp add: appliedAt_def len es1 [symmetric])
    have "mergeFrom rt cfg pos acc ?mc =
        mergeFrom rt cfg (Suc pos) (acc @ [?s']) (remainingAt m cfg (Suc pos))"
      using nodel u a by (simp add: mergeFrom_step [OF lt] Let_def A [symmetric] m2)
    moreover from Suc.hyps(1) [OF n le, of "acc @ [?s']"] obtain out where
      "mergeFrom rt cfg (Suc pos) (acc @ [?s']) (remainingAt m cfg (Suc pos)) =
         ((acc @ [?s']) @ out, remainingAt m cfg (length cfg))"
      "list_all2 (appliedAt m cfg) (filter (\<lambda>j. \<not> deletedAt m cfg j) [Suc pos..<length cfg]) out"
      by blast
    ultimately have "mergeFrom rt cfg pos acc ?mc = (acc @ (?s' # out), remainingAt m cfg (length cfg))"
      and "list_all2 (appliedAt m cfg) (filter (\<lambda>j. \<not> deletedAt m cfg j) [pos..<length cfg]) (?s' # out)"
      using False applied by (simp_all add: upt)
    then show ?thesis by blast
  qed
qed

lemma updateSections_by_original_address:
  assumes "permuting rt" and "distinct (map fst m)"
  shows "snd (updateSections rt cfg m) = remainingAt m cfg (length cfg)"
    and "list_all2 (appliedAt m cfg) (filter (\<lambda>j. \<not> deletedAt m cfg j) [0..<length cfg])
           (fst (updateSections rt cfg m))"
  using merge_by_original_address [OF assms, of 0 cfg "[]"]
  by (auto simp: updateSections_mergeFrom remainingAt_0)


lemma extractRawConfigKeys_loop_distinct:
  "distinct (map fst rv) \<Longrightarrow> extractRawConfigKeys_loop dict rv = Inr m \<Longrightarrow> distinct (map fst m)"
  by (induction dict rv rule: extractRawConfigKeys_loop.induct)
    (auto simp: AList.distinct_update split: option.splits if_splits sum.splits)

lemma qemuExtractRawConfigKeys_loop_distinct:
  "distinct (map fst rv) \<Longrightarrow> qemuExtractRawConfigKeys_loop dict rv = Inr m \<Longrightarrow> distinct (map fst m)"
  by (induction dict rv rule: qemuExtractRawConfigKeys_loop.induct)
    (auto simp: AList.distinct_update split: option.splits if_splits sum.splits)

lemma extractRawConfigKeys_distinct:
  "extractRawConfigKeys dict = Inr m \<Longrightarrow> distinct (map fst m)"
  unfolding extractRawConfigKeys_def by (rule extractRawConfigKeys_loop_distinct [of "[]"]) simp_all

lemma qemuExtractRawConfigKeys_distinct:
  "qemuExtractRawConfigKeys dict = Inr m \<Longrightarrow> distinct (map fst m)"
  unfolding qemuExtractRawConfigKeys_def
  by (rule qemuExtractRawConfigKeys_loop_distinct [of "[]"]) simp_all

lemma appendSections_after: "appendSections rt newCfg m = newCfg @ appendSections rt [] m"
  by (simp add: appendSections_def Let_def)

lemma kept_positions_without:
  assumes "p < length cfg" and "deletedAt m cfg p"
  shows "filter (\<lambda>j. \<not> deletedAt m cfg j) [0..<length cfg] =
         filter (\<lambda>j. \<not> deletedAt m cfg j) ([0..<p] @ [Suc p..<length cfg])"
proof -
  have "[0..<length cfg] = [0..<p] @ p # [Suc p..<length cfg]"
    using assms(1) by (metis le0 upt_add_eq_append upt_conv_Cons add_0 le_add_diff_inverse less_imp_le)
  then show ?thesis using assms(2) by simp
qed

lemma repeatIndex_counts_deleted:
  assumes "p < p2" and "p2 < length cfg" and "name (cfg ! p2) = name (cfg ! p)"
  shows "repeatIndex cfg p2 = Suc (repeatIndex (dropSection cfg p) (p2 - 1))"
proof -
  let ?P = "\<lambda>s. name s = name (cfg ! p2)"
  have p: "p < length cfg" using assms(1,2) by simp
  have nth: "dropSection cfg p ! (p2 - 1) = cfg ! p2"
    using assms(1,2) by (simp add: dropSection_def nth_append)
  have t1: "take p2 cfg = take p cfg @ cfg ! p # take (p2 - Suc p) (drop (Suc p) cfg)"
  proof -
    have "cfg = take p cfg @ cfg ! p # drop (Suc p) cfg" by (rule id_take_nth_drop [OF p])
    then have "take p2 cfg = take p2 (take p cfg @ cfg ! p # drop (Suc p) cfg)" by simp
    also have "\<dots> = take p cfg @ cfg ! p # take (p2 - Suc p) (drop (Suc p) cfg)"
      using assms(1) p by (simp add: take_Cons' min_def)
    finally show ?thesis .
  qed
  obtain d where d: "p2 = Suc (p + d)" using assms(1) by (auto dest: less_imp_Suc_add)
  have t2: "take (p2 - 1) (dropSection cfg p) = take p cfg @ take (p2 - Suc p) (drop (Suc p) cfg)"
    using p by (simp add: d dropSection_def min_def)
  show ?thesis
    unfolding repeatIndex_def nth t2
    by (subst t1) (simp add: assms(3))
qed


text \<open>
  C6. Let the override map \<open>m\<close> of the dictionary (its matching keys, whatever else they
  are) hold the empty string for the bare address of the section at position \<open>p\<close>. Then
  the merge pass outputs, in their order, the sections at the positions other than \<open>p\<close>
  whose own bare address is not deleted, and each of them with the overrides of \<open>m\<close> applied
  that are addressed at it by its name and the repeat index it has in the original list:
  its entries overridden (or blanked) where \<open>m\<close> has their key, followed by one new entry for
  every other key of \<open>m\<close> for that address. So the section at \<open>p\<close> is not among the merged
  sections, and a later section of the same name is still reached under its original
  index, which counts the deleted one: it is one more than its index in the list without
  the section at \<open>p\<close>. The result of the operation is this list of merged sections followed
  by the new sections that the appender makes of the keys left in the map. Both versions,
  every runtime that visits each key once.
\<close>

theorem section_deletion_by_original_address:
  assumes "permuting rt" and "p < length cfg" and "map_of m (sectionAddress cfg p) = Some []"
  shows "(extractRawConfigKeys dict = Inr m \<longrightarrow>
            qemuRawCfgOverride rt cfg dict =
              Inr (fst (updateSections rt cfg m) @
                   appendSections rt [] (remainingAt m cfg (length cfg))) \<and>
            list_all2 (appliedAt m cfg)
              (filter (\<lambda>j. \<not> deletedAt m cfg j) ([0..<p] @ [Suc p..<length cfg]))
              (fst (updateSections rt cfg m))) \<and>
         (qemuExtractRawConfigKeys dict = Inr m \<longrightarrow>
            qemuRawCfgOverride_drv rt cfg dict =
              Inr (fst (qemuRawCfgOverride_drv_sections rt 0 cfg Map.empty [] m) @
                   map (sectionValue
                          (appendSections_collect
                             (sortedConfigKeys_drv rt NewSectionKeys (remainingAt m cfg (length cfg)))
                             (remainingAt m cfg (length cfg)) []))
                     (sortSlice rt lessSection (rangeOrder rt NewSections (map fst
                          (appendSections_collect
                             (sortedConfigKeys_drv rt NewSectionKeys (remainingAt m cfg (length cfg)))
                             (remainingAt m cfg (length cfg)) []))))) \<and>
            list_all2 (appliedAt m cfg)
              (filter (\<lambda>j. \<not> deletedAt m cfg j) ([0..<p] @ [Suc p..<length cfg]))
              (fst (qemuRawCfgOverride_drv_sections rt 0 cfg Map.empty [] m))) \<and>
         (p < p2 \<and> p2 < length cfg \<and> name (cfg ! p2) = name (cfg ! p) \<longrightarrow>
            repeatIndex cfg p2 = Suc (repeatIndex (dropSection cfg p) (p2 - 1)))"
proof -
  have u: "permuting (unsorted rt)" by (rule permuting_unsorted [OF assms(1)])
  have del: "deletedAt m cfg p" using assms(3) by (simp add: deletedAt_def)
  have ne: "m \<noteq> []" using assms(3) by auto
  note kept = kept_positions_without [OF assms(2) del]
  have a: "extractRawConfigKeys dict = Inr m \<longrightarrow>
            qemuRawCfgOverride rt cfg dict =
              Inr (fst (updateSections rt cfg m) @
                   appendSections rt [] (remainingAt m cfg (length cfg))) \<and>
            list_all2 (appliedAt m cfg)
              (filter (\<lambda>j. \<not> deletedAt m cfg j) ([0..<p] @ [Suc p..<length cfg]))
              (fst (updateSections rt cfg m))"
  proof
    assume e: "extractRawConfigKeys dict = Inr m"
    note d = extractRawConfigKeys_distinct [OF e]
    note ch = updateSections_by_original_address [OF assms(1) d, of cfg]
    have "qemuRawCfgOverride rt cfg dict =
        Inr (appendSections rt (fst (updateSections rt cfg m)) (snd (updateSections rt cfg m)))"
      using ne by (simp add: qemuRawCfgOverride_def e split_beta)
    then show "qemuRawCfgOverride rt cfg dict =
              Inr (fst (updateSections rt cfg m) @
                   appendSections rt [] (remainingAt m cfg (length cfg))) \<and>
            list_all2 (appliedAt m cfg)
              (filter (\<lambda>j. \<not> deletedAt m cfg j) ([0..<p] @ [Suc p..<length cfg]))
              (fst (updateSections rt cfg m))"
      using ch(1) ch(2) [unfolded kept]
      by (simp only: appendSections_after [of rt "fst (updateSections rt cfg m)"] simp_thms)
  qed
  have b: "qemuExtractRawConfigKeys dict = Inr m \<longrightarrow>
            qemuRawCfgOverride_drv rt cfg dict =
              Inr (fst (qemuRawCfgOverride_drv_sections rt 0 cfg Map.empty [] m) @
                   map (sectionValue
                          (appendSections_collect
                             (sortedConfigKeys_drv rt NewSectionKeys (remainingAt m cfg (length cfg)))
                             (remainingAt m cfg (length cfg)) []))
                     (sortSlice rt lessSection (rangeOrder rt NewSections (map fst
                          (appendSections_collect
                             (sortedConfigKeys_drv rt NewSectionKeys (remainingAt m cfg (length cfg)))
                             (remainingAt m cfg (length cfg)) []))))) \<and>
            list_all2 (appliedAt m cfg)
              (filter (\<lambda>j. \<not> deletedAt m cfg j) ([0..<p] @ [Suc p..<length cfg]))
              (fst (qemuRawCfgOverride_drv_sections rt 0 cfg Map.empty [] m))"
  proof
    assume e: "qemuExtractRawConfigKeys dict = Inr m"
    note d = qemuExtractRawConfigKeys_distinct [OF e]
    note ch = updateSections_by_original_address [OF u d, of cfg]
    show "qemuRawCfgOverride_drv rt cfg dict =
              Inr (fst (qemuRawCfgOverride_drv_sections rt 0 cfg Map.empty [] m) @
                   map (sectionValue
                          (appendSections_collect
                             (sortedConfigKeys_drv rt NewSectionKeys (remainingAt m cfg (length cfg)))
                             (remainingAt m cfg (length cfg)) []))
                     (sortSlice rt lessSection (rangeOrder rt NewSections (map fst
                          (appendSections_collect
                             (sortedConfigKeys_drv rt NewSectionKeys (remainingAt m cfg (length cfg)))
                             (remainingAt m cfg (length cfg)) []))))) \<and>
            list_all2 (appliedAt m cfg)
              (filter (\<lambda>j. \<not> deletedAt m cfg j) ([0..<p] @ [Suc p..<length cfg]))
              (fst (qemuRawCfgOverride_drv_sections rt 0 cfg Map.empty [] m))"
    proof (rule conjI)
      show "list_all2 (appliedAt m cfg)
              (filter (\<lambda>j. \<not> deletedAt m cfg j) ([0..<p] @ [Suc p..<length cfg]))
              (fst (qemuRawCfgOverride_drv_sections rt 0 cfg Map.empty [] m))"
        using ch(2) [unfolded kept] by (simp only: drv_sections_updateSections)
    qed (use ne ch(1) in \<open>simp add: qemuRawCfgOverride_drv_def e split_beta Let_def
          drv_sections_updateSections\<close>)
  qed
  have c: "p < p2 \<and> p2 < length cfg \<and> name (cfg ! p2) = name (cfg ! p) \<longrightarrow>
            repeatIndex cfg p2 = Suc (repeatIndex (dropSection cfg p) (p2 - 1))"
  proof
    assume "p < p2 \<and> p2 < length cfg \<and> name (cfg ! p2) = name (cfg ! p)"
    then show "repeatIndex cfg p2 = Suc (repeatIndex (dropSection cfg p) (p2 - 1))"
      by (intro repeatIndex_counts_deleted) simp_all
  qed
  show ?thesis using a b c by blast
qed


theorem section_deletion_by_original_address_witness:
  "qemuRawCfgOverride runtimeInOrder
     [\<lparr>name = ''global'', comment = [], entries = [\<lparr>key = ''value'', val = ''1''\<rparr>]\<rparr>,
      \<lparr>name = ''memory'', comment = [], entries = [\<lparr>key = ''size'', val = ''1G''\<rparr>]\<rparr>,
      \<lparr>name = ''global'', comment = [], entries = [\<lparr>key = ''value'', val = ''2''\<rparr>]\<rparr>,
      \<lparr>name = ''global'', comment = ''last'',
         entries = [\<lparr>key = ''value'', val = ''3''\<rparr>, \<lparr>key = ''driver'', val = ''x''\<rparr>]\<rparr>]
     [(''limits.cpu'', ''2''), (''raw.qemu.config.global[1]'', []),
      (''raw.qemu.config.global[2].value'', ''9''), (''raw.qemu.config.global[2].extra'', ''e''),
      (''raw.qemu.config.global[2].driver'', []), (''raw.qemu.config.global[0].value'', ''0'')]
   = Inr [\<lparr>name = ''global'', comment = [], entries = [\<lparr>key = ''value'', val = ''0''\<rparr>]\<rparr>,
      \<lparr>name = ''memory'', comment = [], entries = [\<lparr>key = ''size'', val = ''1G''\<rparr>]\<rparr>,
      \<lparr>name = ''global'', comment = ''last'',
         entries = [\<lparr>key = ''value'', val = ''9''\<rparr>, \<lparr>key = ''driver'', val = []\<rparr>,
                    \<lparr>key = ''extra'', val = ''e''\<rparr>]\<rparr>] \<and>
   qemuRawCfgOverride_drv runtimeInOrder
     [\<lparr>name = ''global'', comment = [], entries = [\<lparr>key = ''value'', val = ''1''\<rparr>]\<rparr>,
      \<lparr>name = ''memory'', comment = [], entries = [\<lparr>key = ''size'', val = ''1G''\<rparr>]\<rparr>,
      \<lparr>name = ''global'', comment = [], entries = [\<lparr>key = ''value'', val = ''2''\<rparr>]\<rparr>,
      \<lparr>name = ''global'', comment = ''last'',
         entries = [\<lparr>key = ''value'', val = ''3''\<rparr>, \<lparr>key = ''driver'', val = ''x''\<rparr>]\<rparr>]
     [(''limits.cpu'', ''2''), (''raw.qemu.config.global[1]'', []),
      (''raw.qemu.config.global[2].value'', ''9''), (''raw.qemu.config.global[2].extra'', ''e''),
      (''raw.qemu.config.global[2].driver'', []), (''raw.qemu.config.global[0].value'', ''0'')]
   = Inr [\<lparr>name = ''global'', comment = [], entries = [\<lparr>key = ''value'', val = ''0''\<rparr>]\<rparr>,
      \<lparr>name = ''memory'', comment = [], entries = [\<lparr>key = ''size'', val = ''1G''\<rparr>]\<rparr>,
      \<lparr>name = ''global'', comment = ''last'',
         entries = [\<lparr>key = ''value'', val = ''9''\<rparr>, \<lparr>key = ''driver'', val = []\<rparr>,
                    \<lparr>key = ''extra'', val = ''e''\<rparr>]\<rparr>] \<and>
   list_all2 (appliedAt
     [(\<lparr>sectionName = ''global'', index = 1, entryKey = []\<rparr>, []),
      (\<lparr>sectionName = ''global'', index = 2, entryKey = ''value''\<rparr>, ''9''),
      (\<lparr>sectionName = ''global'', index = 2, entryKey = ''extra''\<rparr>, ''e''),
      (\<lparr>sectionName = ''global'', index = 2, entryKey = ''driver''\<rparr>, []),
      (\<lparr>sectionName = ''global'', index = 0, entryKey = ''value''\<rparr>, ''0'')]
     [\<lparr>name = ''global'', comment = [], entries = [\<lparr>key = ''value'', val = ''1''\<rparr>]\<rparr>,
      \<lparr>name = ''memory'', comment = [], entries = [\<lparr>key = ''size'', val = ''1G''\<rparr>]\<rparr>,
      \<lparr>name = ''global'', comment = [], entries = [\<lparr>key = ''value'', val = ''2''\<rparr>]\<rparr>,
      \<lparr>name = ''global'', comment = ''last'',
         entries = [\<lparr>key = ''value'', val = ''3''\<rparr>, \<lparr>key = ''driver'', val = ''x''\<rparr>]\<rparr>]) [0, 1, 3]
     [\<lparr>name = ''global'', comment = [], entries = [\<lparr>key = ''value'', val = ''0''\<rparr>]\<rparr>,
      \<lparr>name = ''memory'', comment = [], entries = [\<lparr>key = ''size'', val = ''1G''\<rparr>]\<rparr>,
      \<lparr>name = ''global'', comment = ''last'',
         entries = [\<lparr>key = ''value'', val = ''9''\<rparr>, \<lparr>key = ''driver'', val = []\<rparr>,
                    \<lparr>key = ''extra'', val = ''e''\<rparr>]\<rparr>] \<and>
   repeatIndex
     [\<lparr>name = ''global'', comment = [], entries = [\<lparr>key = ''value'', val = ''1''\<rparr>]\<rparr>,
      \<lparr>name = ''memory'', comment = [], entries = [\<lparr>key = ''size'', val = ''1G''\<rparr>]\<rparr>,
      \<lparr>name = ''global'', comment = [], entries = [\<lparr>key = ''value'', val = ''2''\<rparr>]\<rparr>,
      \<lparr>name = ''global'', comment = ''last'',
         entries = [\<lparr>key = ''value'', val = ''3''\<rparr>, \<lparr>key = ''driver'', val = ''x''\<rparr>]\<rparr>] 3 = 2"
proof -
  let ?cfg = "[\<lparr>name = ''global'', comment = [], entries = [\<lparr>key = ''value'', val = ''1''\<rparr>]\<rparr>,
      \<lparr>name = ''memory'', comment = [], entries = [\<lparr>key = ''size'', val = ''1G''\<rparr>]\<rparr>,
      \<lparr>name = ''global'', comment = [], entries = [\<lparr>key = ''value'', val = ''2''\<rparr>]\<rparr>,
      \<lparr>name = ''global'', comment = ''last'',
         entries = [\<lparr>key = ''value'', val = ''3''\<rparr>, \<lparr>key = ''driver'', val = ''x''\<rparr>]\<rparr>]"
  let ?dict = "[(''limits.cpu'', ''2''), (''raw.qemu.config.global[1]'', []),
      (''raw.qemu.config.global[2].value'', ''9''), (''raw.qemu.config.global[2].extra'', ''e''),
      (''raw.qemu.config.global[2].driver'', []), (''raw.qemu.config.global[0].value'', ''0'')]"
  let ?m = "[(\<lparr>sectionName = ''global'', index = 1, entryKey = []\<rparr>, []),
      (\<lparr>sectionName = ''global'', index = 2, entryKey = ''value''\<rparr>, ''9''),
      (\<lparr>sectionName = ''global'', index = 2, entryKey = ''extra''\<rparr>, ''e''),
      (\<lparr>sectionName = ''global'', index = 2, entryKey = ''driver''\<rparr>, []),
      (\<lparr>sectionName = ''global'', index = 0, entryKey = ''value''\<rparr>, ''0'')]"
  let ?out = "[\<lparr>name = ''global'', comment = [], entries = [\<lparr>key = ''value'', val = ''0''\<rparr>]\<rparr>,
      \<lparr>name = ''memory'', comment = [], entries = [\<lparr>key = ''size'', val = ''1G''\<rparr>]\<rparr>,
      \<lparr>name = ''global'', comment = ''last'',
         entries = [\<lparr>key = ''value'', val = ''9''\<rparr>, \<lparr>key = ''driver'', val = []\<rparr>,
                    \<lparr>key = ''extra'', val = ''e''\<rparr>]\<rparr>]"
  have rt: "permuting runtimeInOrder"
    using valid_runtimeInOrder by (simp add: valid_runtime_def)
  have p: "2 < length ?cfg" by simp
  have l: "map_of ?m (sectionAddress ?cfg 2) = Some []"
    by (simp add: sectionAddress_def repeatIndex_def)
  have e: "extractRawConfigKeys ?dict = Inr ?m" by code_simp
  have d: "qemuExtractRawConfigKeys ?dict = Inr ?m" by code_simp
  have f1: "fst (updateSections runtimeInOrder ?cfg ?m) = ?out" by code_simp
  have f2: "appendSections runtimeInOrder [] (remainingAt ?m ?cfg (length ?cfg)) = []"
    by code_simp
  have f3: "filter (\<lambda>j. \<not> deletedAt ?m ?cfg j) ([0..<2] @ [Suc 2..<length ?cfg]) = [0, 1, 3]"
    by code_simp
  have g1: "fst (qemuRawCfgOverride_drv_sections runtimeInOrder 0 ?cfg Map.empty [] ?m) = ?out"
    by code_simp
  have g2: "map (sectionValue
                (appendSections_collect
                   (sortedConfigKeys_drv runtimeInOrder NewSectionKeys
                      (remainingAt ?m ?cfg (length ?cfg)))
                   (remainingAt ?m ?cfg (length ?cfg)) []))
             (sortSlice runtimeInOrder lessSection (rangeOrder runtimeInOrder NewSections (map fst
                (appendSections_collect
                   (sortedConfigKeys_drv runtimeInOrder NewSectionKeys
                      (remainingAt ?m ?cfg (length ?cfg)))
                   (remainingAt ?m ?cfg (length ?cfg)) [])))) = []"
    by code_simp
  have i: "Suc (repeatIndex (dropSection ?cfg 2) (3 - 1)) = 2" by code_simp
  have h: "2 < (3::nat) \<and> 3 < length ?cfg \<and> name (?cfg ! 3) = name (?cfg ! 2)" by simp
  note th = section_deletion_by_original_address [OF rt p l, of ?dict 3]
  show ?thesis
    using th [unfolded f1 f2 f3 g1 g2 i] e d h by simp
qed

end
